theory Spec2Isabelle
  imports Main "HOL-Library.Product_Lexorder" "HOL-Library.Multiset"
    "HOL-Library.List_Lexorder" "HOL-Library.Char_ord"
begin

section \<open>Python values used by \<open>scripts/config.py\<close>\<close>

text \<open>
  Strings are lists of characters. A Python \<open>dict\<close> keeps its keys in insertion order
  and holds each key once; it is modelled as an association list whose keys are
  distinct, with \<open>map_of\<close> for \<open>d.get(k)\<close> and \<open>dict_set\<close> for \<open>d[k] = v\<close>.
  Exceptions are values of the type \<open>error\<close>, returned as \<open>Inl\<close>.
\<close>

datatype error =
    IndexError
  | KeyError string
  | ValueError string
  | ReError

type_synonym ('k, 'v) pydict = "('k \<times> 'v) list"

text \<open>\<open>d[k] = v\<close>: an existing key keeps its position, a new key goes to the end.\<close>

fun dict_set :: "('k, 'v) pydict \<Rightarrow> 'k \<Rightarrow> 'v \<Rightarrow> ('k, 'v) pydict" where
  "dict_set [] k v = [(k, v)]"
| "dict_set ((k', v') # d) k v =
     (if k' = k then (k, v) # d else (k', v') # dict_set d k v)"

text \<open>\<open>{key: value for ...}\<close> and every other dict built by successive assignments.\<close>

definition dict_of :: "('k \<times> 'v) list \<Rightarrow> ('k, 'v) pydict" where
  "dict_of kvs = fold (\<lambda>(k, v) d. dict_set d k v) kvs []"

definition keys :: "('k, 'v) pydict \<Rightarrow> 'k list" where
  "keys d = map fst d"

text \<open>\<open>s.startswith(p)\<close>\<close>

definition startswith :: "string \<Rightarrow> string \<Rightarrow> bool" where
  "startswith s p = (take (length p) s = p)"

text \<open>\<open>sep.join(xs)\<close>\<close>

fun join :: "string \<Rightarrow> string list \<Rightarrow> string" where
  "join sep [] = []"
| "join sep [x] = x"
| "join sep (x # y # ys) = x @ sep @ join sep (y # ys)"

section \<open>Stack names\<close>

text \<open>
  The fields of a \<open>ConfigManager\<close> that \<open>generate_stack_name\<close> reads. The constructor
  replaces a missing stage by \<open>'default'\<close>, so \<open>stage_id\<close> is always a string;
  \<open>project_id\<close> may be \<open>None\<close> for the service-role infrastructure type.
\<close>

record config_manager =
  prefix :: string
  infra_type :: string
  project_id :: "string option"
  stage_id :: string

text \<open>
  \<open>if not project_id: project_id = self.project_id\<close>: the empty argument falls back
  to the stored value; afterwards \<open>if project_id:\<close> is false for \<open>None\<close> and for \<open>''\<close>.
\<close>

definition generate_stack_name ::
  "config_manager \<Rightarrow> string \<Rightarrow> string \<Rightarrow> string \<Rightarrow> string" where
  "generate_stack_name self prefix_arg project_id_arg stage_id_arg =
     (let prefix = (if prefix_arg = [] then prefix self else prefix_arg);
          project_id = (if project_id_arg = [] then project_id self else Some project_id_arg);
          stage_id = (if stage_id_arg = [] then stage_id self else stage_id_arg);
          stack_name = prefix @ ''-'';
          stack_name = (case project_id of
                          None \<Rightarrow> stack_name
                        | Some p \<Rightarrow> if p \<noteq> [] then stack_name @ p @ ''-'' else stack_name);
          stack_name = (if stage_id \<noteq> [] \<and> stage_id \<noteq> ''default''
                        then stack_name @ stage_id @ ''-'' else stack_name)
      in stack_name @ infra_type self)"

text \<open>The values the name is built from, after the fall-back to the instance.\<close>

definition effective_prefix :: "config_manager \<Rightarrow> string \<Rightarrow> string" where
  "effective_prefix self a = (if a = [] then prefix self else a)"

definition effective_project :: "config_manager \<Rightarrow> string \<Rightarrow> string" where
  "effective_project self a =
     (if a = [] then (case project_id self of None \<Rightarrow> [] | Some p \<Rightarrow> p) else a)"

definition effective_stage :: "config_manager \<Rightarrow> string \<Rightarrow> string" where
  "effective_stage self a = (if a = [] then stage_id self else a)"

section \<open>Section order in \<open>save_config\<close>\<close>

text \<open>
  \<open>sorted(config.get('deployments', {}), key=lambda x: (x[0] != 'd', x[0] != 't',
  x[0] != 'b', x[0] != 's', x[0] != 'p'))\<close>. The key is a tuple of five booleans;
  Python compares tuples lexicographically and \<open>False < True\<close>, which is the order of
  nested pairs of \<open>bool\<close>. \<open>x[0]\<close> raises \<open>IndexError\<close> on the empty string.
\<close>

type_synonym stage_key = "bool \<times> bool \<times> bool \<times> bool \<times> bool"

definition stage_sort_key :: "string \<Rightarrow> error + stage_key" where
  "stage_sort_key x =
     (case x of
        [] \<Rightarrow> Inl IndexError
      | c # _ \<Rightarrow> Inr (c \<noteq> CHR ''d'', c \<noteq> CHR ''t'', c \<noteq> CHR ''b'', c \<noteq> CHR ''s'',
                     c \<noteq> CHR ''p''))"

text \<open>
  \<open>sorted(xs, key=f)\<close> computes the key of every element first (an exception there
  ends the call) and then sorts stably by the keys.
\<close>

fun keyed :: "('a \<Rightarrow> error + 'k) \<Rightarrow> 'a list \<Rightarrow> error + ('k \<times> 'a) list" where
  "keyed f [] = Inr []"
| "keyed f (x # xs) =
     (case f x of
        Inl e \<Rightarrow> Inl e
      | Inr k \<Rightarrow> (case keyed f xs of Inl e \<Rightarrow> Inl e | Inr r \<Rightarrow> Inr ((k, x) # r)))"

definition sorted_by :: "('a \<Rightarrow> error + 'k::linorder) \<Rightarrow> 'a list \<Rightarrow> error + 'a list" where
  "sorted_by f xs =
     (case keyed f xs of Inl e \<Rightarrow> Inl e | Inr kxs \<Rightarrow> Inr (map snd (sort_key fst kxs)))"

text \<open>
  The loop \<open>for stage_id in sorted(...): non_atlantis_deploy_sections[stage_id] =
  config['deployments'][stage_id]\<close>; the sections are then written in the order of
  this dict.
\<close>

fun collect_sections ::
  "(string, 'a) pydict \<Rightarrow> string list \<Rightarrow> (string, 'a) pydict \<Rightarrow> error + (string, 'a) pydict"
where
  "collect_sections deployments [] acc = Inr acc"
| "collect_sections deployments (stage # rest) acc =
     (case map_of deployments stage of
        None \<Rightarrow> Inl (KeyError stage)
      | Some section_config \<Rightarrow>
          collect_sections deployments rest (dict_set acc stage section_config))"

definition non_atlantis_deploy_sections ::
  "(string, 'a) pydict \<Rightarrow> error + (string, 'a) pydict" where
  "non_atlantis_deploy_sections deployments =
     (case sorted_by stage_sort_key (keys deployments) of
        Inl e \<Rightarrow> Inl e
      | Inr stages \<Rightarrow> collect_sections deployments stages [])"

text \<open>
  The priority classes as the specification words them: \<open>d*\<close>, \<open>t*\<close>, \<open>b*\<close>, \<open>s*\<close>,
  \<open>p*\<close>, then every other stage.
\<close>

definition spec_stage_class :: "string \<Rightarrow> nat" where
  "spec_stage_class x =
     (if startswith x ''d'' then 0 else if startswith x ''t'' then 1
      else if startswith x ''b'' then 2 else if startswith x ''s'' then 3
      else if startswith x ''p'' then 4 else 5)"

text \<open>The sort key of a non-empty stage identifier, as a total function.\<close>

definition total_key :: "string \<Rightarrow> stage_key" where
  "total_key x =
     (case stage_sort_key x of Inr k \<Rightarrow> k | Inl _ \<Rightarrow> (True, True, True, True, True))"

section \<open>Tags\<close>

text \<open>
  A tag is the dict \<open>{'Key': k, 'Value': v}\<close>, modelled as the pair \<open>(k, v)\<close>; a tag
  list is a Python list of such dicts and may repeat a key.
\<close>

type_synonym tag = "string \<times> string"

text \<open>\<open>key.startswith('atlantis:') or key.startswith('Atlantis')\<close>\<close>

definition protected_key :: "string \<Rightarrow> bool" where
  "protected_key key = (startswith key ''atlantis:'' \<or> startswith key ''Atlantis'')"

text \<open>
  The body of the loop of \<open>merge_tags\<close> for one \<open>new_tag\<close> with key \<open>key\<close> and
  value \<open>val\<close>, acting on the local \<open>tag_dict\<close>, and the loop over \<open>new_tags\<close>.
\<close>

definition merge_step ::
  "string \<Rightarrow> string \<Rightarrow> (string, string) pydict \<Rightarrow> (string, string) pydict" where
  "merge_step key val tag_dict =
     (if key \<in> set (keys tag_dict) \<and> \<not> protected_key key then dict_set tag_dict key val
      else if key \<notin> set (keys tag_dict) then dict_set tag_dict key val
      else tag_dict)"

fun merge_loop :: "tag list \<Rightarrow> (string, string) pydict \<Rightarrow> (string, string) pydict" where
  "merge_loop [] tag_dict = tag_dict"
| "merge_loop ((key, val) # new_tags) tag_dict =
     merge_loop new_tags (merge_step key val tag_dict)"

text \<open>
  \<open>merge_tags\<close> builds \<open>tag_dict\<close> from \<open>original_tags\<close>, runs the loop and returns
  the items of \<open>tag_dict\<close> as a new list of tags.
\<close>

definition merge_tags :: "tag list \<Rightarrow> tag list \<Rightarrow> tag list" where
  "merge_tags original_tags new_tags = merge_loop new_tags (dict_of original_tags)"

section \<open>Strings\<close>

text \<open>
  \<open>str.strip()\<close> removes the characters for which \<open>str.isspace()\<close> holds from both
  ends; among the first 256 code points these are the twelve below.
\<close>

definition py_isspace :: "char \<Rightarrow> bool" where
  "py_isspace c =
     (c \<in> set [CHR 0x09, CHR 0x0A, CHR 0x0B, CHR 0x0C, CHR 0x0D, CHR 0x1C, CHR 0x1D,
               CHR 0x1E, CHR 0x1F, CHR 0x20, CHR 0x85, CHR 0xA0])"

definition strip_chars :: "(char \<Rightarrow> bool) \<Rightarrow> string \<Rightarrow> string" where
  "strip_chars p s = rev (dropWhile p (rev (dropWhile p s)))"

definition strip :: "string \<Rightarrow> string" where
  "strip s = strip_chars py_isspace s"

text \<open>\<open>s.split(c)\<close> for a one-character separator: never empty, \<open>''.split(',') == ['']\<close>.\<close>

fun split_on :: "char \<Rightarrow> string \<Rightarrow> string list" where
  "split_on c [] = [[]]"
| "split_on c (x # xs) =
     (if x = c then [] # split_on c xs
      else (case split_on c xs of w # ws \<Rightarrow> (x # w) # ws | [] \<Rightarrow> [[x]]))"

text \<open>\<open>str(n)\<close> for an integer.\<close>

function show_nat :: "nat \<Rightarrow> string" where
  "show_nat n =
     (if n < 10 then [''0123456789'' ! n]
      else show_nat (n div 10) @ [''0123456789'' ! (n mod 10)])"
  by pat_completeness auto
termination
  by (relation "measure id") auto

definition show_int :: "int \<Rightarrow> string" where
  "show_int i = (if i < 0 then ''-'' @ show_nat (nat (- i)) else show_nat (nat i))"

section \<open>Parameter validation\<close>

text \<open>
  \<open>validate_parameter\<close> calls \<open>re.match\<close> and \<open>float\<close> of Python's standard
  library, which are not code of this repository. They are parameters of the model:
  \<open>re_match pattern string\<close> is \<open>None\<close> where \<open>re.match\<close> raises \<open>re.error\<close> and
  otherwise tells whether a match object is returned; \<open>float_of\<close> is \<open>None\<close> where
  \<open>float\<close> raises \<open>ValueError\<close>; \<open>float_less\<close> is \<open><\<close> on floats and \<open>float_str\<close>
  their \<open>str\<close>.
\<close>

record 'f pylib =
  re_match :: "string \<Rightarrow> string \<Rightarrow> bool option"
  float_of :: "string \<Rightarrow> 'f option"
  float_less :: "'f \<Rightarrow> 'f \<Rightarrow> bool"
  float_str :: "'f \<Rightarrow> string"

text \<open>
  A parameter definition of a template, with the keys that \<open>validate_parameter\<close>
  reads; a key that the dict does not hold is \<open>None\<close>. Lengths are integers and
  bounds are floats as the YAML loader yields them.
\<close>

record 'f param_def =
  Type :: "string option"
  Default :: "string option"
  AllowedValues :: "string list option"
  AllowedPattern :: "string option"
  MinLength :: "int option"
  MaxLength :: "int option"
  MinValue :: "'f option"
  MaxValue :: "'f option"

record validation =
  reason :: string
  valid :: bool

definition accepted :: validation where
  "accepted = \<lparr>reason = ''Valid'', valid = True\<rparr>"

definition rejected :: "string \<Rightarrow> validation" where
  "rejected why = \<lparr>reason = why, valid = False\<rparr>"

text \<open>The type-specific part of \<open>validate_parameter\<close>, one branch per \<open>elif\<close>.\<close>

definition type_checks :: "'f pylib \<Rightarrow> string \<Rightarrow> string \<Rightarrow> 'f param_def \<Rightarrow> validation" where
  "type_checks lib param_type val pd =
     (if param_type \<in> set [''String'', ''AWS::SSM::Parameter::Value<String>''] then
        (let min_length = (case MinLength pd of None \<Rightarrow> 0 | Some n \<Rightarrow> n);
             max_length = MaxLength pd
         in if int (length val) < min_length
            then rejected (''String length must be at least '' @ show_int min_length)
            else (case max_length of
                    None \<Rightarrow> accepted
                  | Some m \<Rightarrow>
                      if int (length val) > m
                      then rejected (''String length must be no more than '' @ show_int m)
                      else accepted))
      else if param_type \<in> set [''Number'', ''AWS::SSM::Parameter::Value<Number>''] then
        (case float_of lib val of
           None \<Rightarrow> rejected ''Value must be a number''
         | Some num_value \<Rightarrow>
             (case MinValue pd of
                Some min_value \<Rightarrow>
                  if float_less lib num_value min_value
                  then rejected (''Number must be at least '' @ float_str lib min_value)
                  else (case MaxValue pd of
                          Some max_value \<Rightarrow>
                            if float_less lib max_value num_value
                            then rejected (''Number must be no more than ''
                                             @ float_str lib max_value)
                            else accepted
                        | None \<Rightarrow> accepted)
              | None \<Rightarrow>
                  (case MaxValue pd of
                     Some max_value \<Rightarrow>
                       if float_less lib max_value num_value
                       then rejected (''Number must be no more than ''
                                        @ float_str lib max_value)
                       else accepted
                   | None \<Rightarrow> accepted)))
      else if param_type = ''CommaDelimitedList'' then
        (let items = map strip (split_on CHR '','' val)
         in if [] \<in> set items
            then rejected ''CommaDelimitedList cannot contain empty items''
            else accepted)
      else if param_type = ''List<Number>'' then
        (let items = map strip (split_on CHR '','' val)
         in if None \<in> set (map (float_of lib) items)
            then rejected ''All items must be valid numbers''
            else accepted)
      else if param_type = ''AWS::EC2::KeyPair::KeyName'' then
        (if val = [] then rejected ''KeyPair name cannot be empty'' else accepted)
      else if param_type = ''AWS::EC2::VPC::Id'' then
        (if \<not> startswith val ''vpc-''
         then rejected (''VPC ID must start with '' @ [CHR 0x27] @ ''vpc-'' @ [CHR 0x27])
         else accepted)
      else if param_type = ''AWS::EC2::Subnet::Id'' then
        (if \<not> startswith val ''subnet-''
         then rejected (''Subnet ID must start with '' @ [CHR 0x27] @ ''subnet-'' @ [CHR 0x27])
         else accepted)
      else if param_type = ''AWS::EC2::SecurityGroup::Id'' then
        (if \<not> startswith val ''sg-''
         then rejected (''Security Group ID must start with '' @ [CHR 0x27] @ ''sg-''
                          @ [CHR 0x27])
         else accepted)
      else accepted)"

text \<open>
  The rules of \<open>validate_parameter\<close> in the order of the source: an empty value with a
  default, \<open>AllowedValues\<close>, \<open>AllowedPattern\<close>, then the type. An absent bound of a
  number is \<open>float('-inf')\<close> or \<open>float('inf')\<close>, which no float is below or above, so
  the comparison with an absent bound is left out.
\<close>

definition validate_parameter ::
  "'f pylib \<Rightarrow> string \<Rightarrow> 'f param_def \<Rightarrow> error + validation" where
  "validate_parameter lib val pd =
     (if val = [] \<and> Default pd \<noteq> None then Inr accepted
      else
        let param_type = (case Type pd of None \<Rightarrow> ''String'' | Some t \<Rightarrow> t);
            allowed_values = (case AllowedValues pd of None \<Rightarrow> [] | Some vs \<Rightarrow> vs)
        in if allowed_values \<noteq> [] \<and> val \<notin> set allowed_values
           then Inr (rejected (''Value must be one of: '' @ join '', '' allowed_values))
           else
             (case AllowedPattern pd of
                None \<Rightarrow> Inr (type_checks lib param_type val pd)
              | Some allowed_pattern \<Rightarrow>
                  if allowed_pattern = [] then Inr (type_checks lib param_type val pd)
                  else
                    (case re_match lib allowed_pattern val of
                       None \<Rightarrow> Inl ReError
                     | Some matched \<Rightarrow>
                         if \<not> matched
                         then Inr (rejected (''Value must match pattern: '' @ allowed_pattern))
                         else Inr (type_checks lib param_type val pd))))"

subsection \<open>A fragment of Python's regular expressions\<close>

text \<open>
  To run \<open>validate_parameter\<close> on concrete patterns, \<open>re.match\<close> and \<open>re.fullmatch\<close>
  are modelled on the patterns built from literal characters and \<open>.\<close>, each
  optionally followed by one of \<open>*\<close>, \<open>+\<close>, \<open>?\<close>, with an optional \<open>^\<close> in front and an
  optional \<open>$\<close> at the end. \<open>re.match\<close> looks for a match that starts at the first
  character and may end anywhere; \<open>re.fullmatch\<close> for one that spans the string. \<open>.\<close>
  matches any character but the newline; \<open>$\<close> matches at the end and before a final
  newline. Patterns outside this fragment are not modelled: the two functions are
  \<open>None\<close> there, and no theorem below evaluates them there.
\<close>

datatype atom = Lit char | AnyChar

datatype quant = Once | Star | Plus | Opt

type_synonym item = "atom \<times> quant"

definition special :: "char \<Rightarrow> bool" where
  "special c = (c \<in> set [CHR ''.'', CHR ''^'', CHR ''$'', CHR ''*'', CHR ''+'', CHR ''?'',
                          CHR ''{'', CHR ''}'', CHR ''['', CHR '']'', CHR 0x5C, CHR ''|'',
                          CHR ''('', CHR '')''])"

definition parse_atom :: "char \<Rightarrow> atom option" where
  "parse_atom c = (if c = CHR ''.'' then Some AnyChar
                   else if special c then None else Some (Lit c))"

text \<open>The items of a pattern and whether it ends with \<open>$\<close>.\<close>

fun parse_items :: "string \<Rightarrow> (item list \<times> bool) option" where
  "parse_items [] = Some ([], False)"
| "parse_items [c] =
     (if c = CHR ''$'' then Some ([], True)
      else (case parse_atom c of None \<Rightarrow> None | Some a \<Rightarrow> Some ([(a, Once)], False)))"
| "parse_items (c # q # rest) =
     (case parse_atom c of
        None \<Rightarrow> None
      | Some a \<Rightarrow>
          if q = CHR ''*'' then map_option (\<lambda>(its, e). ((a, Star) # its, e)) (parse_items rest)
          else if q = CHR ''+'' then map_option (\<lambda>(its, e). ((a, Plus) # its, e)) (parse_items rest)
          else if q = CHR ''?'' then map_option (\<lambda>(its, e). ((a, Opt) # its, e)) (parse_items rest)
          else map_option (\<lambda>(its, e). ((a, Once) # its, e)) (parse_items (q # rest)))"

definition parse_pattern :: "string \<Rightarrow> (item list \<times> bool) option" where
  "parse_pattern p = (case p of c # rest \<Rightarrow> if c = CHR ''^'' then parse_items rest
                                           else parse_items p
                      | [] \<Rightarrow> parse_items p)"

definition atom_ok :: "atom \<Rightarrow> char \<Rightarrow> bool" where
  "atom_ok a x = (case a of Lit c \<Rightarrow> x = c | AnyChar \<Rightarrow> x \<noteq> CHR 0x0A)"

text \<open>
  \<open>match_items fin its s\<close>: some way of matching the items against the front of \<open>s\<close>
  leaves a rest that \<open>fin\<close> accepts. A backtracking matcher finds a match exactly when
  one exists.
\<close>

fun match_items :: "(string \<Rightarrow> bool) \<Rightarrow> item list \<Rightarrow> string \<Rightarrow> bool" where
  "match_items fin [] s = fin s"
| "match_items fin ((a, Once) # r) [] = False"
| "match_items fin ((a, Once) # r) (x # xs) = (atom_ok a x \<and> match_items fin r xs)"
| "match_items fin ((a, Opt) # r) [] = match_items fin r []"
| "match_items fin ((a, Opt) # r) (x # xs) =
     ((atom_ok a x \<and> match_items fin r xs) \<or> match_items fin r (x # xs))"
| "match_items fin ((a, Star) # r) [] = match_items fin r []"
| "match_items fin ((a, Star) # r) (x # xs) =
     ((atom_ok a x \<and> match_items fin ((a, Star) # r) xs) \<or> match_items fin r (x # xs))"
| "match_items fin ((a, Plus) # r) [] = False"
| "match_items fin ((a, Plus) # r) (x # xs) =
     (atom_ok a x \<and> match_items fin ((a, Star) # r) xs)"

definition end_ok :: "bool \<Rightarrow> bool \<Rightarrow> string \<Rightarrow> bool" where
  "end_ok full dollar rest =
     (if full then rest = [] else if dollar then rest = [] \<or> rest = [CHR 0x0A] else True)"

definition py_re_match :: "string \<Rightarrow> string \<Rightarrow> bool option" where
  "py_re_match p s =
     (case parse_pattern p of
        None \<Rightarrow> None
      | Some (its, dollar) \<Rightarrow> Some (match_items (end_ok False dollar) its s))"

definition py_re_fullmatch :: "string \<Rightarrow> string \<Rightarrow> bool option" where
  "py_re_fullmatch p s =
     (case parse_pattern p of
        None \<Rightarrow> None
      | Some (its, dollar) \<Rightarrow> Some (match_items (end_ok True dollar) its s))"

text \<open>
  A library whose \<open>re.match\<close> is the fragment above, for running the validator on
  concrete definitions that are settled before any number is parsed.
\<close>

definition fragment_lib :: "int pylib" where
  "fragment_lib = \<lparr>re_match = py_re_match, float_of = (\<lambda>s. None), float_less = (<),
                    float_str = show_int\<rparr>"

section \<open>Comparing the local and the deployed configuration\<close>

text \<open>
  The parts of a configuration that \<open>compare_configurations\<close> reads: the dict under
  \<open>['atlantis']['deploy']['parameters']\<close> and, for each stage, the
  \<open>parameter_overrides\<close> dict and the \<open>tags\<close> list under
  \<open>['deployments'][stage]['deploy']['parameters']\<close>. All values are strings, as
  \<open>read_samconfig\<close> and \<open>get_stack_config\<close> produce them. Every \<open>.get(key, {})\<close> of the
  source yields the empty dict for a missing level.
\<close>

record deployment =
  parameter_overrides :: "(string, string) pydict"
  tags :: "tag list"

record samconfig =
  atlantis :: "(string, string) pydict"
  deployments :: "(string, deployment) pydict"

definition deploy_parameters :: "samconfig \<Rightarrow> string \<Rightarrow> deployment" where
  "deploy_parameters config stage =
     (case map_of (deployments config) stage of
        None \<Rightarrow> \<lparr>parameter_overrides = [], tags = []\<rparr>
      | Some d \<Rightarrow> d)"

text \<open>\<open>format_value\<close>: \<open>str(value) if value is not None else 'None'\<close>.\<close>

definition format_value :: "string option \<Rightarrow> string" where
  "format_value v = (case v of None \<Rightarrow> ''None'' | Some s \<Rightarrow> s)"

text \<open>
  One printed comparison: the name, the two formatted values, and whether
  \<open>print_comparison\<close> colours it as a match (\<open>local_str == stack_str\<close>).
\<close>

record comparison =
  name :: string
  local_str :: string
  stack_str :: string
  marked_equal :: bool

definition print_comparison :: "string \<Rightarrow> string option \<Rightarrow> string option \<Rightarrow> comparison" where
  "print_comparison key local_val stack_val =
     \<lparr>name = key, local_str = format_value local_val, stack_str = format_value stack_val,
      marked_equal = (format_value local_val = format_value stack_val)\<rparr>"

text \<open>
  The loop over the sorted union of the keys of one domain. The state is the flag
  \<open>differences\<close> and the comparisons printed so far; the flag is set where
  \<open>local_value != stack_value\<close>, on the values that \<open>.get(key)\<close> returns.
\<close>

fun compare_keys ::
  "(string, string) pydict \<Rightarrow> (string, string) pydict \<Rightarrow> string list \<Rightarrow>
   bool \<times> comparison list \<Rightarrow> bool \<times> comparison list" where
  "compare_keys local stack [] st = st"
| "compare_keys local stack (key # rest) (differences, printed) =
     (let local_value = map_of local key;
          stack_value = map_of stack key;
          differences = (if local_value \<noteq> stack_value then True else differences)
      in compare_keys local stack rest
           (differences, printed @ [print_comparison key local_value stack_value]))"

definition all_keys :: "(string, 'a) pydict \<Rightarrow> (string, 'b) pydict \<Rightarrow> string list" where
  "all_keys local stack = sort (remdups (keys local @ keys stack))"

text \<open>\<open>if key in local_atlantis_params: stack_atlantis_params[key] = local_atlantis_params[key]\<close>\<close>

definition copy_key ::
  "string \<Rightarrow> (string, string) pydict \<Rightarrow> (string, string) pydict \<Rightarrow> (string, string) pydict"
where
  "copy_key key local stack =
     (case map_of local key of None \<Rightarrow> stack | Some v \<Rightarrow> dict_set stack key v)"

text \<open>
  \<open>compare_configurations\<close> returns \<open>differences\<close>; the comparisons it prints are
  returned with it, in the order parameter overrides, deploy parameters, tags.
\<close>

definition compare_configurations ::
  "string \<Rightarrow> samconfig \<Rightarrow> samconfig \<Rightarrow> bool \<times> comparison list" where
  "compare_configurations stage local_config stack_config =
     (let local_params = deploy_parameters local_config stage;
          local_parameter_overrides = parameter_overrides local_params;
          local_atlantis_params = atlantis local_config;
          local_tags = tags local_params;
          stack_params = deploy_parameters stack_config stage;
          stack_parameter_overrides = parameter_overrides stack_params;
          stack_atlantis_params = atlantis stack_config;
          stack_tags = tags stack_params;
          stack_atlantis_params =
            copy_key ''confirm_changeset'' local_atlantis_params stack_atlantis_params;
          stack_atlantis_params =
            copy_key ''s3_bucket'' local_atlantis_params stack_atlantis_params;
          local_tags_dict = dict_of local_tags;
          stack_tags_dict = dict_of stack_tags;
          st = (False, []);
          st = compare_keys local_parameter_overrides stack_parameter_overrides
                 (all_keys local_parameter_overrides stack_parameter_overrides) st;
          st = compare_keys local_atlantis_params stack_atlantis_params
                 (all_keys local_atlantis_params stack_atlantis_params) st;
          st = compare_keys local_tags_dict stack_tags_dict
                 (all_keys local_tags_dict stack_tags_dict) st
      in st)"

section \<open>Parsing and writing parameter overrides and tags\<close>

subsection \<open>The tokenizer\<close>

text \<open>
  \<open>shlex.split(s)\<close> and the lexer that \<open>parse_tags\<close> sets up are both \<open>shlex\<close> in POSIX
  mode with \<open>whitespace_split = True\<close> and no comment characters; with
  \<open>whitespace_split\<close> the extra \<open>wordchars\<close> of \<open>parse_tags\<close> change nothing. \<open>shlex\<close>
  is part of Python's standard library; the function below follows the state machine
  of \<open>shlex.read_token\<close>: the states \<open>' '\<close> (between tokens), \<open>'a'\<close> (in a word), a quote
  character (in quotes) and the escape character (after a backslash, with the state to
  return to), the flag \<open>quoted\<close> and the token read so far. Only the double quote
  allows escapes inside quotes.
\<close>

datatype lex_state = Between | InWord | InQuote char | Escaped "char option"

definition whitespace :: "char \<Rightarrow> bool" where
  "whitespace c = (c \<in> set [CHR 0x20, CHR 0x09, CHR 0x0D, CHR 0x0A])"

definition quote_char :: "char \<Rightarrow> bool" where
  "quote_char c = (c = CHR 0x27 \<or> c = CHR 0x22)"

definition emit :: "string \<Rightarrow> error + string list \<Rightarrow> error + string list" where
  "emit token r = (case r of Inl e \<Rightarrow> Inl e | Inr ts \<Rightarrow> Inr (token # ts))"

fun read_tokens :: "lex_state \<Rightarrow> bool \<Rightarrow> string \<Rightarrow> string \<Rightarrow> error + string list" where
  "read_tokens st quoted token [] =
     (case st of
        InQuote q \<Rightarrow> Inl (ValueError ''No closing quotation'')
      | Escaped e \<Rightarrow> Inl (ValueError ''No escaped character'')
      | _ \<Rightarrow> if token \<noteq> [] \<or> quoted then Inr [token] else Inr [])"
| "read_tokens st quoted token (c # cs) =
     (case st of
        Between \<Rightarrow>
          if whitespace c then
            (if token \<noteq> [] \<or> quoted then emit token (read_tokens Between False [] cs)
             else read_tokens Between quoted token cs)
          else if c = CHR 0x5C then read_tokens (Escaped None) quoted token cs
          else if quote_char c then read_tokens (InQuote c) quoted token cs
          else read_tokens InWord quoted [c] cs
      | InWord \<Rightarrow>
          if whitespace c then
            (if token \<noteq> [] \<or> quoted then emit token (read_tokens Between False [] cs)
             else read_tokens Between quoted token cs)
          else if quote_char c then read_tokens (InQuote c) quoted token cs
          else if c = CHR 0x5C then read_tokens (Escaped None) quoted token cs
          else read_tokens InWord quoted (token @ [c]) cs
      | InQuote q \<Rightarrow>
          if c = q then read_tokens InWord True token cs
          else if c = CHR 0x5C \<and> q = CHR 0x22 then read_tokens (Escaped (Some q)) True token cs
          else read_tokens (InQuote q) True (token @ [c]) cs
      | Escaped None \<Rightarrow> read_tokens InWord quoted (token @ [c]) cs
      | Escaped (Some q) \<Rightarrow>
          read_tokens (InQuote q) quoted
            ((if c \<noteq> CHR 0x5C \<and> c \<noteq> q then token @ [CHR 0x5C] else token) @ [c]) cs)"

definition shlex_split :: "string \<Rightarrow> error + string list" where
  "shlex_split s = read_tokens Between False [] s"

subsection \<open>Parameter overrides\<close>

datatype log_entry = Info string | Warning string | Error string

text \<open>\<open>part.split('=', 1)\<close> for a \<open>part\<close> that contains \<open>=\<close>.\<close>

definition split_first :: "char \<Rightarrow> string \<Rightarrow> string \<times> string" where
  "split_first c s = (takeWhile (\<lambda>x. x \<noteq> c) s, drop 1 (dropWhile (\<lambda>x. x \<noteq> c) s))"

text \<open>The loop of \<open>parse_parameter_overrides\<close> over the parts, with the log it writes.\<close>

fun add_parts ::
  "string list \<Rightarrow> (string, string) pydict \<times> log_entry list \<Rightarrow>
   (string, string) pydict \<times> log_entry list" where
  "add_parts [] st = st"
| "add_parts (part # parts) (parameters, logged) =
     (if CHR ''='' \<in> set part
      then (case split_first CHR ''='' part of
              (key, val) \<Rightarrow>
                add_parts parts (dict_set parameters (strip key) (strip val), logged))
      else add_parts parts
             (parameters, logged @ [Warning (''Skipping invalid parameter format: '' @ part)]))"

definition error_text :: "error \<Rightarrow> string" where
  "error_text e =
     (case e of ValueError m \<Rightarrow> m | KeyError k \<Rightarrow> k | IndexError \<Rightarrow> ''IndexError''
      | ReError \<Rightarrow> ''re.error'')"

text \<open>
  \<open>parse_parameter_overrides\<close>: the \<open>try\<close> block holds \<open>shlex.split\<close> and the loop; an
  exception is logged and the dict built so far, which is then still empty, is
  returned.
\<close>

definition parse_parameter_overrides ::
  "string \<Rightarrow> (string, string) pydict \<times> log_entry list" where
  "parse_parameter_overrides parameter_string =
     (if parameter_string = [] then ([], [])
      else (case shlex_split parameter_string of
              Inl e \<Rightarrow> ([], [Error (''Error parsing parameter overrides: '' @ error_text e)])
            | Inr parts \<Rightarrow> add_parts parts ([], [])))"

text \<open>
  \<open>" ".join([f'"{key}"="{value}"' for key, value in d.items()])\<close>; \<open>entry\<close> is the
  formatted string of one item.
\<close>

definition entry :: "string \<times> string \<Rightarrow> string" where
  "entry kv = [CHR 0x22] @ fst kv @ [CHR 0x22] @ ''='' @ [CHR 0x22] @ snd kv @ [CHR 0x22]"

definition stringify_parameter_overrides :: "(string, string) pydict \<Rightarrow> string" where
  "stringify_parameter_overrides parameter_overrides_as_dict =
     join '' '' (map entry parameter_overrides_as_dict)"

subsection \<open>Tags\<close>




text \<open>
  Strings that the written form \<open>"key"="value"\<close> carries unchanged: no double quote
  and no backslash, so that the tokenizer reads them literally between the quotes.
\<close>

definition plain :: "string \<Rightarrow> bool" where
  "plain s = (CHR 0x22 \<notin> set s \<and> CHR 0x5C \<notin> set s)"

section \<open>Defaults\<close>

text \<open>
  A defaults file holds a JSON object. Its values are scalars, nested objects, and
  arrays of tags \<open>{"Key": k, "Value": v}\<close>, the only arrays \<open>deep_update\<close> can merge
  (\<open>merge_tags\<close> reads \<open>'Key'\<close> and \<open>'Value'\<close> of every element).
\<close>

datatype scalar = SNull | SBool bool | SNum int | SStr string

datatype cfg = Scalar scalar | Tags "tag list" | Dict "(string \<times> cfg) list"

text \<open>
  \<open>deep_update(original, update)\<close> assigns into \<open>original\<close> and returns it. The
  function below takes the contents of \<open>original\<close> before the call and gives its
  contents after the call, which is also what the call returns. The recursive call of
  the source updates the nested dict \<open>original[key]\<close> in place; here the updated
  nested dict is stored back under \<open>key\<close>, which keeps its position.
\<close>

fun deep_update :: "(string \<times> cfg) list \<Rightarrow> (string \<times> cfg) list \<Rightarrow> (string \<times> cfg) list" where
  "deep_update original [] = original"
| "deep_update original ((key, val) # rest) =
     deep_update
       (case (map_of original key, val) of
          (Some (Dict d), Dict u) \<Rightarrow> dict_set original key (Dict (deep_update d u))
        | (Some (Tags l), Tags n) \<Rightarrow> dict_set original key (Tags (merge_tags l n))
        | _ \<Rightarrow> dict_set original key val)
       rest"

text \<open>The content of \<open>original[key]\<close> after one item of \<open>update\<close>, from its old content.\<close>

definition slot :: "cfg option \<Rightarrow> cfg \<Rightarrow> cfg" where
  "slot old val =
     (case (old, val) of
        (Some (Dict d), Dict u) \<Rightarrow> Dict (deep_update d u)
      | (Some (Tags l), Tags n) \<Rightarrow> Tags (merge_tags l n)
      | _ \<Rightarrow> val)"

text \<open>
  A Python dict holds each key once, and the data model gives a tag list each key
  once; \<open>wf_cfg\<close> says so for every object and tag list inside a fragment.
\<close>

fun wf_cfg :: "cfg \<Rightarrow> bool" and wf_items :: "(string \<times> cfg) list \<Rightarrow> bool" where
  "wf_cfg (Scalar s) = True"
| "wf_cfg (Tags l) = distinct (map fst l)"
| "wf_cfg (Dict d) = (distinct (map fst d) \<and> wf_items d)"
| "wf_items [] = True"
| "wf_items (kv # d) = (wf_cfg (snd kv) \<and> wf_items d)"

text \<open>
  What \<open>load_defaults\<close> finds at the path of a defaults file: no file, a file that
  \<open>json.load\<close> cannot read (with the message of the exception), or a JSON value.
\<close>

datatype config_file = Absent | Malformed string | Parsed cfg

text \<open>
  The loop of \<open>load_defaults\<close> over the files, on the dict \<open>defaults\<close> and the log.
  A file that does not exist is passed over; \<open>JSONDecodeError\<close> and any other exception
  are caught and logged inside the loop. A JSON value that is no object has no
  \<open>items()\<close>, so \<open>deep_update\<close> raises at once and \<open>defaults\<close> is left as it was.
\<close>

fun load_files ::
  "(string \<times> config_file) list \<Rightarrow> (string \<times> cfg) list \<times> log_entry list \<Rightarrow>
   (string \<times> cfg) list \<times> log_entry list" where
  "load_files [] st = st"
| "load_files ((path, file) # files) (defaults, logged) =
     load_files files
       (case file of
          Absent \<Rightarrow> (defaults, logged)
        | Malformed msg \<Rightarrow>
            (defaults, logged @ [Error (''Error parsing JSON from '' @ path @ '': '' @ msg)])
        | Parsed (Dict new_config) \<Rightarrow>
            (deep_update defaults new_config,
             logged @ [Info (''Loaded config from '' @ [CHR 0x27] @ path @ [CHR 0x27])])
        | Parsed _ \<Rightarrow>
            (defaults,
             logged @ [Error (''Error loading config file '' @ path
                                @ '': object has no attribute '' @ [CHR 0x27] @ ''items''
                                @ [CHR 0x27])]))"

text \<open>The paths that \<open>load_defaults\<close> tries, in order, below the directory \<open>defaults\<close>.\<close>

definition config_files :: "config_manager \<Rightarrow> string list" where
  "config_files self =
     (let project = (case project_id self of None \<Rightarrow> ''None'' | Some p \<Rightarrow> p)
      in [''defaults/defaults.json'',
          ''defaults/'' @ prefix self @ ''-defaults.json'']
         @ (if project_id self \<noteq> None \<and> project_id self \<noteq> Some []
            then [''defaults/'' @ prefix self @ ''-'' @ project @ ''-defaults.json''] else [])
         @ [''defaults/'' @ infra_type self @ ''/defaults.json'',
            ''defaults/'' @ infra_type self @ ''/'' @ prefix self @ ''-defaults.json'',
            ''defaults/'' @ infra_type self @ ''/'' @ prefix self @ ''-'' @ project
              @ ''-defaults.json''])"

definition load_defaults ::
  "config_manager \<Rightarrow> (string \<Rightarrow> config_file) \<Rightarrow> (string \<times> cfg) list \<times> log_entry list" where
  "load_defaults self fs = load_files (map (\<lambda>path. (path, fs path)) (config_files self)) ([], [])"

text \<open>
  The layers of the specification are the parsed files in the order of the loop:
  \<open>resolve\<close> loads them into an empty dict.
\<close>

definition resolve :: "(string \<times> cfg) list list \<Rightarrow> (string \<times> cfg) list" where
  "resolve layers = fst (load_files (map (\<lambda>l. (''layer'', Parsed (Dict l))) layers) ([], []))"

section \<open>Calls on objects in a store\<close>







section \<open>Theorems\<close>

subsection \<open>Stack names\<close>

text \<open>
  Claim C10. With the empty arguments replaced by the instance's values,
  \<open>generate_stack_name\<close> returns prefix, project, stage and infrastructure type joined
  by hyphens; the project segment is left out when the project is empty (or \<open>None\<close>),
  the stage segment when the stage is empty or \<open>'default'\<close>. For the stage
  \<open>'default'\<close> and a project the name is \<open>prefix-project-infra_type\<close>.
\<close>

theorem generate_stack_name_format:
  "generate_stack_name self pa ja sa =
     (let p = effective_prefix self pa;
          j = effective_project self ja;
          s = effective_stage self sa
      in if j \<noteq> [] \<and> s \<noteq> [] \<and> s \<noteq> ''default''
           then join ''-'' [p, j, s, infra_type self]
         else if j \<noteq> [] then join ''-'' [p, j, infra_type self]
         else if s \<noteq> [] \<and> s \<noteq> ''default'' then join ''-'' [p, s, infra_type self]
         else join ''-'' [p, infra_type self])"
  by (auto simp: generate_stack_name_def effective_prefix_def effective_project_def
        effective_stage_def Let_def split: option.splits)

theorem generate_stack_name_format_witness:
  "generate_stack_name
     \<lparr>prefix = ''acme'', infra_type = ''pipeline'', project_id = Some ''widget'',
      stage_id = ''default''\<rparr> [] [] [] = ''acme-widget-pipeline''
   \<and> generate_stack_name
     \<lparr>prefix = ''acme'', infra_type = ''pipeline'', project_id = Some ''widget'',
      stage_id = ''default''\<rparr> [] [] ''test'' = ''acme-widget-test-pipeline''
   \<and> generate_stack_name
     \<lparr>prefix = ''acme'', infra_type = ''service-role'', project_id = None,
      stage_id = ''default''\<rparr> [] [] [] = ''acme-service-role''"
  using generate_stack_name_format
    [of "\<lparr>prefix = ''acme'', infra_type = ''pipeline'', project_id = Some ''widget'',
          stage_id = ''default''\<rparr>" "[]" "[]" "[]"]
    generate_stack_name_format
    [of "\<lparr>prefix = ''acme'', infra_type = ''pipeline'', project_id = Some ''widget'',
          stage_id = ''default''\<rparr>" "[]" "[]" "''test''"]
    generate_stack_name_format
    [of "\<lparr>prefix = ''acme'', infra_type = ''service-role'', project_id = None,
          stage_id = ''default''\<rparr>" "[]" "[]" "[]"]
  by (simp add: effective_prefix_def effective_project_def effective_stage_def)

subsection \<open>Section order\<close>

lemma dict_set_fresh: "k \<notin> fst ` set d \<Longrightarrow> dict_set d k v = d @ [(k, v)]"
  by (induction d) auto

lemma fold_dict_set_distinct:
  "distinct (map fst (acc @ kvs)) \<Longrightarrow> fold (\<lambda>(k, v) d. dict_set d k v) kvs acc = acc @ kvs"
proof (induction kvs arbitrary: acc)
  case Nil then show ?case by simp
next
  case (Cons kv kvs)
  obtain k v where kv: "kv = (k, v)" by (cases kv)
  from Cons.prems have "k \<notin> fst ` set acc" by (auto simp: kv)
  then have "dict_set acc k v = acc @ [(k, v)]" by (rule dict_set_fresh)
  moreover have "distinct (map fst ((acc @ [(k, v)]) @ kvs))" using Cons.prems by (simp add: kv)
  ultimately show ?case using Cons.IH[of "acc @ [(k, v)]"] by (simp add: kv)
qed

lemma dict_of_distinct: "distinct (map fst kvs) \<Longrightarrow> dict_of kvs = kvs"
  using fold_dict_set_distinct[of "[]" kvs] by (simp add: dict_of_def)

lemma keyed_total:
  "(\<And>x. x \<in> set xs \<Longrightarrow> f x = Inr (g x)) \<Longrightarrow> keyed f xs = Inr (map (\<lambda>x. (g x, x)) xs)"
  by (induction xs) auto

lemma keyed_error: "x \<in> set xs \<Longrightarrow> f x = Inl e \<Longrightarrow> \<exists>e'. keyed f xs = Inl e'"
  by (induction xs) (auto split: sum.splits)

lemma sort_key_fst_decorated:
  "map snd (sort_key fst (map (\<lambda>x. (g x, x)) xs)) = sort_key g xs"
proof -
  have "sort_key fst (map (\<lambda>x. (g x, x)) xs) = map (\<lambda>x. (g x, x)) (sort_key g xs)"
  proof (rule properties_for_sort_key)
    show "mset (map (\<lambda>x. (g x, x)) (sort_key g xs)) = mset (map (\<lambda>x. (g x, x)) xs)" by simp
    show "sorted (map fst (map (\<lambda>x. (g x, x)) (sort_key g xs)))" by (simp add: comp_def)
    fix k assume "k \<in> set (map (\<lambda>x. (g x, x)) (sort_key g xs))"
    show "filter (\<lambda>x. fst k = fst x) (map (\<lambda>x. (g x, x)) (sort_key g xs))
        = filter (\<lambda>x. fst k = fst x) (map (\<lambda>x. (g x, x)) xs)"
      using sort_key_stable[of g "fst k" xs] by (simp add: filter_map comp_def eq_commute)
  qed
  then show ?thesis by (simp add: comp_def)
qed

lemma stage_sort_key_total: "x \<noteq> [] \<Longrightarrow> stage_sort_key x = Inr (total_key x)"
  by (cases x) (simp_all add: total_key_def stage_sort_key_def)

lemma sorted_by_stage: "[] \<notin> set xs \<Longrightarrow> sorted_by stage_sort_key xs = Inr (sort_key total_key xs)"
proof -
  assume a: "[] \<notin> set xs"
  have "keyed stage_sort_key xs = Inr (map (\<lambda>x. (total_key x, x)) xs)"
    by (rule keyed_total) (use a in \<open>auto intro: stage_sort_key_total\<close>)
  then show ?thesis by (simp add: sorted_by_def sort_key_fst_decorated)
qed

lemma key_le_iff_class:
  "x \<noteq> [] \<Longrightarrow> y \<noteq> [] \<Longrightarrow> total_key x \<le> total_key y \<longleftrightarrow> spec_stage_class x \<le> spec_stage_class y"
  by (cases x; cases y) (auto simp: total_key_def stage_sort_key_def spec_stage_class_def startswith_def less_eq_prod_def)

lemma key_eq_iff_class:
  "x \<noteq> [] \<Longrightarrow> y \<noteq> [] \<Longrightarrow> total_key x = total_key y \<longleftrightarrow> spec_stage_class x = spec_stage_class y"
  by (cases x; cases y) (auto simp: total_key_def stage_sort_key_def spec_stage_class_def startswith_def)

lemma collect_sections_keys:
  "set ss \<subseteq> fst ` set d \<Longrightarrow> distinct (map fst acc @ ss) \<Longrightarrow>
   collect_sections d ss acc = Inr (acc @ map (\<lambda>s. (s, the (map_of d s))) ss)"
proof (induction ss arbitrary: acc)
  case Nil then show ?case by simp
next
  case (Cons s ss)
  from Cons.prems obtain v where v: "map_of d s = Some v"
    by (metis list.set_intros(1) map_of_eq_None_iff not_Some_eq subsetD)
  have "dict_set acc s v = acc @ [(s, v)]" using Cons.prems by (intro dict_set_fresh) (auto simp: image_iff)
  then show ?case using Cons.IH[of "acc @ [(s, v)]"] Cons.prems v by simp
qed

lemma section_order_general:
  assumes dist: "distinct (keys d)" and ne: "[] \<notin> set (keys d)"
  shows "non_atlantis_deploy_sections d = Inr (map (\<lambda>s. (s, the (map_of d s))) (sort_key total_key (keys d)))"
proof -
  have "collect_sections d (sort_key total_key (keys d)) [] = Inr ([] @ map (\<lambda>s. (s, the (map_of d s))) (sort_key total_key (keys d)))"
    by (rule collect_sections_keys) (use dist in \<open>auto simp: keys_def\<close>)
  then show ?thesis using sorted_by_stage[OF ne] by (simp add: non_atlantis_deploy_sections_def)
qed

lemma items_of_distinct:
  "distinct (map fst d) \<Longrightarrow> map (\<lambda>s. (s, the (map_of d s))) (map fst d) = d"
proof -
  assume dist: "distinct (map fst d)"
  have "map (\<lambda>kv. (fst kv, the (map_of d (fst kv)))) d = map (\<lambda>kv. kv) d"
  proof (rule map_cong[OF refl])
    fix kv assume "kv \<in> set d"
    with dist have "map_of d (fst kv) = Some (snd kv)" by (metis map_of_is_SomeI prod.collapse)
    then show "(fst kv, the (map_of d (fst kv))) = kv" by simp
  qed
  then show ?thesis by (simp add: comp_def)
qed

lemma sorted_class_of_sorted_key:
  assumes "[] \<notin> set xs" and "sorted (map total_key xs)"
  shows "sorted (map spec_stage_class xs)"
  using assms
proof (induction xs)
  case Nil then show ?case by simp
next
  case (Cons x xs)
  have "spec_stage_class x \<le> spec_stage_class y" if "y \<in> set xs" for y
  proof -
    from that Cons.prems have "x \<noteq> []" "y \<noteq> []" "total_key x \<le> total_key y" by auto
    then show ?thesis using key_le_iff_class by blast
  qed
  then show ?case using Cons by auto
qed

lemma filter_class_sort_key:
  assumes ne: "[] \<notin> set xs"
  shows "filter (\<lambda>x. spec_stage_class x = c) (sort_key total_key xs)
       = filter (\<lambda>x. spec_stage_class x = c) xs"
proof (cases "\<exists>x0 \<in> set xs. spec_stage_class x0 = c")
  case True
  then obtain x0 where x0: "x0 \<in> set xs" "spec_stage_class x0 = c" by blast
  have eq: "\<And>ys. set ys \<subseteq> set xs \<Longrightarrow>
      filter (\<lambda>x. spec_stage_class x = c) ys = filter (\<lambda>y. total_key y = total_key x0) ys"
  proof (rule filter_cong[OF refl])
    fix ys x assume "set ys \<subseteq> set xs" "x \<in> set ys"
    then have "x \<noteq> []" "x0 \<noteq> []" using ne x0 by auto
    then show "(spec_stage_class x = c) = (total_key x = total_key x0)"
      using key_eq_iff_class[of x x0] x0 by simp
  qed
  show ?thesis
    using eq[of xs] eq[of "sort_key total_key xs"] sort_key_stable[of total_key "total_key x0" xs]
    by simp
next
  case False
  then have "filter (\<lambda>x. spec_stage_class x = c) xs = []" by (auto simp: filter_empty_conv)
  moreover from False have "filter (\<lambda>x. spec_stage_class x = c) (sort_key total_key xs) = []"
    by (auto simp: filter_empty_conv)
  ultimately show ?thesis by simp
qed

lemma mset_map_cong_aux: "mset xs = mset ys \<Longrightarrow> mset (map g xs) = mset (map g ys)"
  by (metis mset_map)

lemma section_order_props:
  assumes dist: "distinct (keys d)" and ne: "[] \<notin> set (keys d)"
  defines "r \<equiv> map (\<lambda>s. (s, the (map_of d s))) (sort_key total_key (keys d))"
  shows "non_atlantis_deploy_sections d = Inr r"
    and "mset r = mset d"
    and "sorted (map spec_stage_class (keys r))"
    and "filter (\<lambda>x. spec_stage_class x = c) (keys r) = filter (\<lambda>x. spec_stage_class x = c) (keys d)"
    and "mset d' = mset d \<Longrightarrow> inj_on spec_stage_class (set (keys d)) \<Longrightarrow>
           non_atlantis_deploy_sections d' = Inr r"
proof -
  have kr: "keys r = sort_key total_key (keys d)" by (simp add: r_def keys_def comp_def)
  show "non_atlantis_deploy_sections d = Inr r"
    unfolding r_def by (rule section_order_general[OF dist ne])
  have "mset (sort_key total_key (map fst d)) = mset (map fst d)" by (rule mset_sort)
  then have "mset (map (\<lambda>s. (s, the (map_of d s))) (sort_key total_key (map fst d)))
      = mset (map (\<lambda>s. (s, the (map_of d s))) (map fst d))"
    by (rule mset_map_cong_aux)
  then have "mset r = mset (map (\<lambda>s. (s, the (map_of d s))) (map fst d))"
    by (simp only: r_def keys_def)
  also have "\<dots> = mset d" using items_of_distinct[of d] dist by (simp only: keys_def)
  finally show "mset r = mset d" .
  show "sorted (map spec_stage_class (keys r))"
    unfolding kr by (rule sorted_class_of_sorted_key) (use ne in auto)
  show "filter (\<lambda>x. spec_stage_class x = c) (keys r) = filter (\<lambda>x. spec_stage_class x = c) (keys d)"
    unfolding kr by (rule filter_class_sort_key[OF ne])
  assume perm: "mset d' = mset d" and inj: "inj_on spec_stage_class (set (keys d))"
  have kperm: "mset (keys d') = mset (keys d)" using perm by (metis keys_def mset_map)
  then have dist': "distinct (keys d')" and ne': "[] \<notin> set (keys d')"
    using dist ne by (metis mset_eq_imp_distinct_iff, metis set_mset_mset)
  have sets: "set d' = set d" using perm by (metis set_mset_mset)
  have mo: "map_of d' = map_of d"
    using dist dist' sets by (simp add: keys_def map_of_inject_set)
  have inj': "inj_on total_key (set (keys d'))"
  proof (rule inj_onI)
    fix x y assume xy: "x \<in> set (keys d')" "y \<in> set (keys d')" "total_key x = total_key y"
    have mem: "x \<in> set (keys d)" "y \<in> set (keys d)" using xy kperm by (metis set_mset_mset)+
    then have "x \<noteq> []" "y \<noteq> []" using ne by auto
    then have "spec_stage_class x = spec_stage_class y" using xy key_eq_iff_class by blast
    then show "x = y" using inj mem by (auto dest: inj_onD)
  qed
  have "sort_key total_key (keys d') = sort_key total_key (keys d)"
    by (rule sort_key_inj_key_eq[OF _ inj']) (use kperm in auto)
  then show "non_atlantis_deploy_sections d' = Inr r"
    using section_order_general[OF dist' ne'] mo by (simp add: r_def)
qed

text \<open>
  Claim C8, amended. For deployments with distinct, non-empty stage identifiers the
  sections are written in the order of the first character's priority (\<open>d\<close>, \<open>t\<close>,
  \<open>b\<close>, \<open>s\<close>, \<open>p\<close>, then the rest), every section once; stages of equal priority
  keep their insertion order, so the order does not depend on the insertion order
  exactly when no two stages share a priority. The stages prod, test1, dev2, build,
  staging are written as dev2, test1, build, staging, prod.
\<close>

theorem section_order_first_character_priority:
  "(distinct (keys d) \<and> [] \<notin> set (keys d) \<longrightarrow>
      (\<exists>r. non_atlantis_deploy_sections d = Inr r
         \<and> mset r = mset d
         \<and> sorted (map spec_stage_class (keys r))
         \<and> (\<forall>c. filter (\<lambda>x. spec_stage_class x = c) (keys r)
                = filter (\<lambda>x. spec_stage_class x = c) (keys d))
         \<and> (\<forall>d'. mset d' = mset d \<and> inj_on spec_stage_class (set (keys d)) \<longrightarrow>
                non_atlantis_deploy_sections d' = Inr r)))
   \<and> non_atlantis_deploy_sections
         [(''prod'', a), (''test1'', b), (''dev2'', c), (''build'', e), (''staging'', f)] =
       Inr [(''dev2'', c), (''test1'', b), (''build'', e), (''staging'', f), (''prod'', a)]"
proof (intro conjI impI)
  assume "distinct (keys d) \<and> [] \<notin> set (keys d)"
  then have dist: "distinct (keys d)" and ne: "[] \<notin> set (keys d)" by simp_all
  show "\<exists>r. non_atlantis_deploy_sections d = Inr r
         \<and> mset r = mset d
         \<and> sorted (map spec_stage_class (keys r))
         \<and> (\<forall>c. filter (\<lambda>x. spec_stage_class x = c) (keys r)
                = filter (\<lambda>x. spec_stage_class x = c) (keys d))
         \<and> (\<forall>d'. mset d' = mset d \<and> inj_on spec_stage_class (set (keys d)) \<longrightarrow>
                non_atlantis_deploy_sections d' = Inr r)"
    using section_order_props[OF dist ne] by blast
next
  show "non_atlantis_deploy_sections
         [(''prod'', a), (''test1'', b), (''dev2'', c), (''build'', e), (''staging'', f)] =
       Inr [(''dev2'', c), (''test1'', b), (''build'', e), (''staging'', f), (''prod'', a)]"
    by (simp add: non_atlantis_deploy_sections_def sorted_by_def keys_def stage_sort_key_def)
qed

theorem section_order_first_character_priority_witness:
  "\<exists>r. non_atlantis_deploy_sections [(''prod'', ()), (''dev2'', ()), (''qa'', ())] = Inr r
     \<and> mset r = mset [(''prod'', ()), (''dev2'', ()), (''qa'', ())]
     \<and> sorted (map spec_stage_class (keys r))"
proof -
  have hyp: "distinct (keys [(''prod'', ()), (''dev2'', ()), (''qa'', ())])
      \<and> [] \<notin> set (keys [(''prod'', ()), (''dev2'', ()), (''qa'', ())])"
    by (simp add: keys_def)
  from section_order_first_character_priority
    [of "[(''prod'', ()), (''dev2'', ()), (''qa'', ())]" "()" "()" "()" "()" "()"] hyp
  show ?thesis by blast
qed

text \<open>
  Two insertion orders of the same two stages are written in two different orders: the
  order is not independent of the insertion order.
\<close>

theorem section_order_insertion_counterexample:
  "non_atlantis_deploy_sections [(''dev1'', ()), (''dev2'', ())] =
     Inr [(''dev1'', ()), (''dev2'', ())]
   \<and> non_atlantis_deploy_sections [(''dev2'', ()), (''dev1'', ())] =
     Inr [(''dev2'', ()), (''dev1'', ())]"
  by (simp add: non_atlantis_deploy_sections_def sorted_by_def keys_def stage_sort_key_def)

subsection \<open>Tag precedence\<close>

lemma map_of_dict_set: "map_of (dict_set d k v) = (map_of d)(k \<mapsto> v)"
  by (induction d) (auto simp: fun_eq_iff)

lemma keys_dict_set:
  "keys (dict_set d k v) = (if k \<in> set (keys d) then keys d else keys d @ [k])"
  unfolding keys_def
proof (induction d)
  case Nil then show ?case by simp
next
  case (Cons a d)
  obtain k' v' where a: "a = (k', v')" by (cases a)
  show ?case
  proof (cases "k' = k")
    case True then show ?thesis by (simp add: a)
  next
    case False
    then show ?thesis using Cons by (simp add: a)
  qed
qed

lemma distinct_dict_set: "distinct (keys d) \<Longrightarrow> distinct (keys (dict_set d k v))"
  by (simp add: keys_dict_set)

lemma fold_dict_set_props:
  "distinct (keys acc) \<Longrightarrow>
   distinct (keys (fold (\<lambda>(k, v) d. dict_set d k v) kvs acc))
   \<and> set (keys (fold (\<lambda>(k, v) d. dict_set d k v) kvs acc)) = set (keys acc) \<union> fst ` set kvs
   \<and> map_of (fold (\<lambda>(k, v) d. dict_set d k v) kvs acc) = map_of acc ++ map_of (rev kvs)"
proof (induction kvs arbitrary: acc)
  case Nil then show ?case by simp
next
  case (Cons kv kvs)
  obtain k v where kv: "kv = (k, v)" by (cases kv)
  have d: "distinct (keys (dict_set acc k v))" using Cons.prems by (rule distinct_dict_set)
  have "map_of (dict_set acc k v) ++ map_of (rev kvs) = map_of acc ++ map_of (rev kvs @ [(k, v)])"
    by (auto simp: map_of_dict_set fun_eq_iff map_add_def split: option.splits)
  then show ?case using Cons.IH[OF d] by (auto simp: kv keys_dict_set)
qed

lemma dict_of_props:
  "distinct (keys (dict_of kvs))" "set (keys (dict_of kvs)) = fst ` set kvs"
  "map_of (dict_of kvs) = map_of (rev kvs)"
  using fold_dict_set_props[of "[]" kvs] by (simp_all add: dict_of_def keys_def)

lemma keys_merge_step:
  "keys (merge_step key val d) = (if key \<in> set (keys d) then keys d else keys d @ [key])"
  by (simp add: merge_step_def keys_dict_set)

lemma map_of_merge_step:
  "map_of (merge_step key val d) =
     (if key \<in> set (keys d) \<and> protected_key key then map_of d else (map_of d)(key \<mapsto> val))"
  by (simp add: merge_step_def map_of_dict_set)

lemma merge_loop_keys:
  "distinct (keys d) \<Longrightarrow> distinct (keys (merge_loop n d))
     \<and> set (keys (merge_loop n d)) = set (keys d) \<union> fst ` set n"
proof (induction n d rule: merge_loop.induct)
  case (1 d) then show ?case by simp
next
  case (2 key val new_tags d)
  have "distinct (keys (merge_step key val d))" using 2 by (simp add: keys_merge_step)
  from "2.IH"[OF this] show ?case by (auto simp: keys_merge_step)
qed

lemma map_of_rev_snoc:
  "map_of (rev (kv # n)) k =
     (if k \<in> fst ` set n then map_of (rev n) k else if k = fst kv then Some (snd kv) else None)"
proof (cases "map_of (rev n) k")
  case None
  then have "k \<notin> fst ` set n" by (simp add: map_of_eq_None_iff)
  with None show ?thesis by (cases kv) (simp add: map_add_def)
next
  case (Some x)
  then have "k \<in> fst ` set n" by (metis map_of_eq_None_iff option.distinct(1) set_rev)
  with Some show ?thesis by (cases kv) (simp add: map_add_def)
qed

lemma merge_loop_lookup:
  "map_of (merge_loop n d) k =
     (if k \<in> fst ` set n
      then (if protected_key k then (if k \<in> set (keys d) then map_of d k else map_of n k)
            else map_of (rev n) k)
      else map_of d k)"
proof (induction n d rule: merge_loop.induct)
  case (1 d) then show ?case by simp
next
  case (2 key val new_tags d)
  have absent: "k \<notin> set (keys d) \<Longrightarrow> map_of d k = None"
    by (simp add: keys_def map_of_eq_None_iff)
  show ?case
    unfolding merge_loop.simps "2.IH" map_of_rev_snoc keys_merge_step map_of_merge_step
    using absent by (auto simp: keys_def)
qed


lemma map_of_unique:
  assumes "(k, v) \<in> set l" and "\<forall>v'. (k, v') \<in> set l \<longrightarrow> v' = v"
  shows "map_of l k = Some v" and "map_of (rev l) k = Some v"
proof -
  have "k \<in> fst ` set l" using assms(1) by force
  then obtain w where w: "map_of l k = Some w"
    by (metis map_of_eq_None_iff not_Some_eq)
  then have "(k, w) \<in> set l" by (rule map_of_SomeD)
  with assms(2) w show "map_of l k = Some v" by simp
  have "k \<in> fst ` set (rev l)" using assms(1) by force
  then obtain u where u: "map_of (rev l) k = Some u"
    by (metis map_of_eq_None_iff not_Some_eq)
  then have "(k, u) \<in> set (rev l)" by (rule map_of_SomeD)
  with assms(2) u show "map_of (rev l) k = Some v" by simp
qed


text \<open>
  Claim C1. In the result of \<open>merge_tags\<close> every key of either list occurs once. A
  protected key of the base (one that starts with \<open>atlantis:\<close> or \<open>Atlantis\<close>) keeps
  the base value whatever the overlay holds; an unprotected key of the base takes the
  overlay's value; a key absent from the base gets the overlay's value, protected or
  not. "The value" of a key in a list is the value of its tag where the list holds one
  value for that key; where a list repeats a key, the base value is that of its last
  tag, the overlay value of an unprotected key is that of its last tag, and the overlay
  value of a protected key that the base lacks is that of its first tag. The example
  of the specification evaluates as stated.
\<close>

theorem merge_tags_precedence:
  "distinct (keys (merge_tags base overlay))
   \<and> set (keys (merge_tags base overlay)) = fst ` set base \<union> fst ` set overlay
   \<and> ((k, v) \<in> set base \<and> (\<forall>v'. (k, v') \<in> set base \<longrightarrow> v' = v) \<and> protected_key k \<longrightarrow>
        map_of (merge_tags base overlay) k = Some v)
   \<and> (k \<in> fst ` set base \<and> \<not> protected_key k
        \<and> (k, v) \<in> set overlay \<and> (\<forall>v'. (k, v') \<in> set overlay \<longrightarrow> v' = v) \<longrightarrow>
        map_of (merge_tags base overlay) k = Some v)
   \<and> (k \<notin> fst ` set base
        \<and> (k, v) \<in> set overlay \<and> (\<forall>v'. (k, v') \<in> set overlay \<longrightarrow> v' = v) \<longrightarrow>
        map_of (merge_tags base overlay) k = Some v)
   \<and> (k \<in> fst ` set base \<and> protected_key k \<longrightarrow>
        map_of (merge_tags base overlay) k = map_of (rev base) k)
   \<and> (k \<in> fst ` set overlay \<and> \<not> protected_key k \<longrightarrow>
        map_of (merge_tags base overlay) k = map_of (rev overlay) k)
   \<and> (k \<notin> fst ` set base \<and> k \<in> fst ` set overlay \<and> protected_key k \<longrightarrow>
        map_of (merge_tags base overlay) k = map_of overlay k)
   \<and> merge_tags [(''Atlantis:App'', ''v1''), (''Owner'', ''alice'')]
        [(''Atlantis:App'', ''v2''), (''Owner'', ''bob''), (''Team'', ''infra'')] =
      [(''Atlantis:App'', ''v1''), (''Owner'', ''bob''), (''Team'', ''infra'')]"
proof (intro conjI impI)
  show "distinct (keys (merge_tags base overlay))"
    unfolding merge_tags_def using merge_loop_keys[OF dict_of_props(1)] by blast
  show "set (keys (merge_tags base overlay)) = fst ` set base \<union> fst ` set overlay"
    unfolding merge_tags_def
    using merge_loop_keys[where d = "dict_of base" and n = overlay, OF dict_of_props(1)]
    by (simp add: dict_of_props(2))
next
  assume a: "(k, v) \<in> set base \<and> (\<forall>v'. (k, v') \<in> set base \<longrightarrow> v' = v) \<and> protected_key k"
  from a have m: "(k, v) \<in> set base" by (rule conjunct1)
  from a have u: "\<forall>v'. (k, v') \<in> set base \<longrightarrow> v' = v" by (rule conjunct1[OF conjunct2])
  from a have p: "protected_key k" by (rule conjunct2[OF conjunct2])
  have kb: "k \<in> fst ` set base" using m by (rule rev_image_eqI) simp
  have "map_of (rev base) k = Some v" using m u by (rule map_of_unique(2))
  with kb p show "map_of (merge_tags base overlay) k = Some v"
    by (simp add: merge_tags_def merge_loop_lookup dict_of_props)
next
  assume a: "k \<in> fst ` set base \<and> \<not> protected_key k
        \<and> (k, v) \<in> set overlay \<and> (\<forall>v'. (k, v') \<in> set overlay \<longrightarrow> v' = v)"
  from a have kb: "k \<in> fst ` set base" by (rule conjunct1)
  from a have p: "\<not> protected_key k" by (rule conjunct1[OF conjunct2])
  from a have m: "(k, v) \<in> set overlay" by (rule conjunct1[OF conjunct2[OF conjunct2]])
  from a have u: "\<forall>v'. (k, v') \<in> set overlay \<longrightarrow> v' = v"
    by (rule conjunct2[OF conjunct2[OF conjunct2]])
  have ko: "k \<in> fst ` set overlay" using m by (rule rev_image_eqI) simp
  have "map_of (rev overlay) k = Some v" using m u by (rule map_of_unique(2))
  with kb ko p show "map_of (merge_tags base overlay) k = Some v"
    by (simp add: merge_tags_def merge_loop_lookup dict_of_props)
next
  assume a: "k \<notin> fst ` set base
        \<and> (k, v) \<in> set overlay \<and> (\<forall>v'. (k, v') \<in> set overlay \<longrightarrow> v' = v)"
  from a have kb: "k \<notin> fst ` set base" by (rule conjunct1)
  from a have m: "(k, v) \<in> set overlay" by (rule conjunct1[OF conjunct2])
  from a have u: "\<forall>v'. (k, v') \<in> set overlay \<longrightarrow> v' = v" by (rule conjunct2[OF conjunct2])
  have ko: "k \<in> fst ` set overlay" using m by (rule rev_image_eqI) simp
  have "map_of (rev overlay) k = Some v" "map_of overlay k = Some v"
    using m u by (rule map_of_unique)+
  with kb ko show "map_of (merge_tags base overlay) k = Some v"
    by (simp add: merge_tags_def merge_loop_lookup dict_of_props)
next
  assume "k \<in> fst ` set base \<and> protected_key k"
  then show "map_of (merge_tags base overlay) k = map_of (rev base) k"
    by (simp add: merge_tags_def merge_loop_lookup dict_of_props)
next
  assume "k \<in> fst ` set overlay \<and> \<not> protected_key k"
  then show "map_of (merge_tags base overlay) k = map_of (rev overlay) k"
    by (simp add: merge_tags_def merge_loop_lookup dict_of_props)
next
  assume "k \<notin> fst ` set base \<and> k \<in> fst ` set overlay \<and> protected_key k"
  then show "map_of (merge_tags base overlay) k = map_of overlay k"
    by (simp add: merge_tags_def merge_loop_lookup dict_of_props)
next
  show "merge_tags [(''Atlantis:App'', ''v1''), (''Owner'', ''alice'')]
        [(''Atlantis:App'', ''v2''), (''Owner'', ''bob''), (''Team'', ''infra'')] =
      [(''Atlantis:App'', ''v1''), (''Owner'', ''bob''), (''Team'', ''infra'')]"
    by (simp add: merge_tags_def dict_of_def merge_step_def keys_def protected_key_def
          startswith_def)
qed

theorem merge_tags_precedence_witness:
  "map_of (merge_tags [(''atlantis:Prefix'', ''acme''), (''Stage'', ''test'')]
             [(''atlantis:Prefix'', ''evil''), (''Stage'', ''prod''), (''atlantis:New'', ''n'')])
          ''atlantis:Prefix'' = Some ''acme''
   \<and> map_of (merge_tags [(''atlantis:Prefix'', ''acme''), (''Stage'', ''test'')]
             [(''atlantis:Prefix'', ''evil''), (''Stage'', ''prod''), (''atlantis:New'', ''n'')])
          ''Stage'' = Some ''prod''
   \<and> map_of (merge_tags [(''atlantis:Prefix'', ''acme''), (''Stage'', ''test'')]
             [(''atlantis:Prefix'', ''evil''), (''Stage'', ''prod''), (''atlantis:New'', ''n'')])
          ''atlantis:New'' = Some ''n''
   \<and> map_of (merge_tags [(''atlantis:Prefix'', ''a''), (''atlantis:Prefix'', ''b'')]
             [(''Stage'', ''s1''), (''Stage'', ''s2''), (''atlantis:New'', ''n1''),
              (''atlantis:New'', ''n2'')])
          ''atlantis:Prefix'' = Some ''b''
   \<and> map_of (merge_tags [(''atlantis:Prefix'', ''a''), (''atlantis:Prefix'', ''b'')]
             [(''Stage'', ''s1''), (''Stage'', ''s2''), (''atlantis:New'', ''n1''),
              (''atlantis:New'', ''n2'')])
          ''Stage'' = Some ''s2''
   \<and> map_of (merge_tags [(''atlantis:Prefix'', ''a''), (''atlantis:Prefix'', ''b'')]
             [(''Stage'', ''s1''), (''Stage'', ''s2''), (''atlantis:New'', ''n1''),
              (''atlantis:New'', ''n2'')])
          ''atlantis:New'' = Some ''n1''"
proof -
  let ?b = "[(''atlantis:Prefix'', ''acme''), (''Stage'', ''test'')]"
  let ?n = "[(''atlantis:Prefix'', ''evil''), (''Stage'', ''prod''), (''atlantis:New'', ''n'')]"
  let ?b2 = "[(''atlantis:Prefix'', ''a''), (''atlantis:Prefix'', ''b'')]"
  let ?n2 = "[(''Stage'', ''s1''), (''Stage'', ''s2''), (''atlantis:New'', ''n1''),
              (''atlantis:New'', ''n2'')]"
  have h1: "(''atlantis:Prefix'', ''acme'') \<in> set ?b
      \<and> (\<forall>v'. (''atlantis:Prefix'', v') \<in> set ?b \<longrightarrow> v' = ''acme'')
      \<and> protected_key ''atlantis:Prefix''"
    by (simp add: protected_key_def startswith_def)
  have h2: "''Stage'' \<in> fst ` set ?b \<and> \<not> protected_key ''Stage''
      \<and> (''Stage'', ''prod'') \<in> set ?n \<and> (\<forall>v'. (''Stage'', v') \<in> set ?n \<longrightarrow> v' = ''prod'')"
    by (simp add: protected_key_def startswith_def)
  have h3: "''atlantis:New'' \<notin> fst ` set ?b
      \<and> (''atlantis:New'', ''n'') \<in> set ?n
      \<and> (\<forall>v'. (''atlantis:New'', v') \<in> set ?n \<longrightarrow> v' = ''n'')"
    by simp
  have h4: "''atlantis:Prefix'' \<in> fst ` set ?b2 \<and> protected_key ''atlantis:Prefix''"
    by (simp add: protected_key_def startswith_def)
  have h5: "''Stage'' \<in> fst ` set ?n2 \<and> \<not> protected_key ''Stage''"
    by (simp add: protected_key_def startswith_def)
  have h6: "''atlantis:New'' \<notin> fst ` set ?b2 \<and> ''atlantis:New'' \<in> fst ` set ?n2
      \<and> protected_key ''atlantis:New''"
    by (simp add: protected_key_def startswith_def)
  from merge_tags_precedence [of ?b ?n "''atlantis:Prefix''" "''acme''"] h1
  have c1: "map_of (merge_tags ?b ?n) ''atlantis:Prefix'' = Some ''acme''" by blast
  from merge_tags_precedence [of ?b ?n "''Stage''" "''prod''"] h2
  have c2: "map_of (merge_tags ?b ?n) ''Stage'' = Some ''prod''" by blast
  from merge_tags_precedence [of ?b ?n "''atlantis:New''" "''n''"] h3
  have c3: "map_of (merge_tags ?b ?n) ''atlantis:New'' = Some ''n''" by blast
  from merge_tags_precedence [of ?b2 ?n2 "''atlantis:Prefix''" "''b''"] h4
  have "map_of (merge_tags ?b2 ?n2) ''atlantis:Prefix'' = map_of (rev ?b2) ''atlantis:Prefix''"
    by blast
  then have c4: "map_of (merge_tags ?b2 ?n2) ''atlantis:Prefix'' = Some ''b''" by simp
  from merge_tags_precedence [of ?b2 ?n2 "''Stage''" "''s2''"] h5
  have "map_of (merge_tags ?b2 ?n2) ''Stage'' = map_of (rev ?n2) ''Stage''" by blast
  then have c5: "map_of (merge_tags ?b2 ?n2) ''Stage'' = Some ''s2''" by simp
  from merge_tags_precedence [of ?b2 ?n2 "''atlantis:New''" "''n1''"] h6
  have "map_of (merge_tags ?b2 ?n2) ''atlantis:New'' = map_of ?n2 ''atlantis:New''" by blast
  then have c6: "map_of (merge_tags ?b2 ?n2) ''atlantis:New'' = Some ''n1''" by simp
  from c1 c2 c3 c4 c5 c6 show ?thesis by (intro conjI)
qed

subsection \<open>Parameter validation\<close>

text \<open>
  Claim C3. \<open>validate_parameter\<close> applies its rules in a fixed order and stops at the
  first that decides: an empty value with a default is accepted; otherwise a value
  outside non-empty allowed values is rejected with the allowed values in the reason,
  whatever the pattern and the type; otherwise a value that the pattern does not
  match is rejected with the pattern in the reason, whatever the type; and a value is
  accepted only if it is empty with a default or passes the allowed values, the
  pattern and the type checks. With allowed values x, y and pattern \<open>^z.*\<close> the value
  q is rejected by the allowed-values rule.
\<close>

theorem validate_parameter_rule_order:
  "(val = [] \<and> Default pd \<noteq> None \<longrightarrow> validate_parameter lib val pd = Inr accepted)
   \<and> (\<not> (val = [] \<and> Default pd \<noteq> None)
        \<and> AllowedValues pd = Some vs \<and> vs \<noteq> [] \<and> val \<notin> set vs \<longrightarrow>
        validate_parameter lib val pd =
          Inr (rejected (''Value must be one of: '' @ join '', '' vs)))
   \<and> (\<not> (val = [] \<and> Default pd \<noteq> None)
        \<and> (\<forall>ws. AllowedValues pd = Some ws \<longrightarrow> ws = [] \<or> val \<in> set ws)
        \<and> AllowedPattern pd = Some p \<and> p \<noteq> [] \<and> re_match lib p val = Some False \<longrightarrow>
        validate_parameter lib val pd = Inr (rejected (''Value must match pattern: '' @ p)))
   \<and> (validate_parameter lib val pd = Inr r \<and> valid r \<longrightarrow>
        (val = [] \<and> Default pd \<noteq> None)
        \<or> ((\<forall>ws. AllowedValues pd = Some ws \<longrightarrow> ws = [] \<or> val \<in> set ws)
           \<and> (\<forall>q. AllowedPattern pd = Some q \<and> q \<noteq> [] \<longrightarrow> re_match lib q val = Some True)
           \<and> valid (type_checks lib (case Type pd of None \<Rightarrow> ''String'' | Some t \<Rightarrow> t) val pd)))
   \<and> validate_parameter lib ''q''
         \<lparr>Type = ty, Default = df, AllowedValues = Some [''x'', ''y''],
          AllowedPattern = Some ''^z.*'', MinLength = mn, MaxLength = mx,
          MinValue = lo, MaxValue = hi\<rparr> =
       Inr \<lparr>reason = ''Value must be one of: x, y'', valid = False\<rparr>"
proof (intro conjI impI)
  assume "val = [] \<and> Default pd \<noteq> None"
  then show "validate_parameter lib val pd = Inr accepted"
    by (simp add: validate_parameter_def)
next
  assume "\<not> (val = [] \<and> Default pd \<noteq> None)
        \<and> AllowedValues pd = Some vs \<and> vs \<noteq> [] \<and> val \<notin> set vs"
  then show "validate_parameter lib val pd =
          Inr (rejected (''Value must be one of: '' @ join '', '' vs))"
    by (auto simp: validate_parameter_def Let_def)
next
  assume "\<not> (val = [] \<and> Default pd \<noteq> None)
        \<and> (\<forall>ws. AllowedValues pd = Some ws \<longrightarrow> ws = [] \<or> val \<in> set ws)
        \<and> AllowedPattern pd = Some p \<and> p \<noteq> [] \<and> re_match lib p val = Some False"
  then show "validate_parameter lib val pd = Inr (rejected (''Value must match pattern: '' @ p))"
    by (auto simp: validate_parameter_def Let_def split: option.splits)
next
  assume "validate_parameter lib val pd = Inr r \<and> valid r"
  then show "(val = [] \<and> Default pd \<noteq> None)
        \<or> ((\<forall>ws. AllowedValues pd = Some ws \<longrightarrow> ws = [] \<or> val \<in> set ws)
           \<and> (\<forall>q. AllowedPattern pd = Some q \<and> q \<noteq> [] \<longrightarrow> re_match lib q val = Some True)
           \<and> valid (type_checks lib (case Type pd of None \<Rightarrow> ''String'' | Some t \<Rightarrow> t) val pd))"
    by (auto simp: validate_parameter_def Let_def rejected_def split: option.splits if_splits)
next
  show "validate_parameter lib ''q''
         \<lparr>Type = ty, Default = df, AllowedValues = Some [''x'', ''y''],
          AllowedPattern = Some ''^z.*'', MinLength = mn, MaxLength = mx,
          MinValue = lo, MaxValue = hi\<rparr> =
       Inr \<lparr>reason = ''Value must be one of: x, y'', valid = False\<rparr>"
    by (simp add: validate_parameter_def Let_def rejected_def)
qed

theorem validate_parameter_rule_order_witness:
  "validate_parameter fragment_lib []
     \<lparr>Type = None, Default = Some ''d'', AllowedValues = Some [''x'', ''y''],
      AllowedPattern = Some ''^z.*'', MinLength = None, MaxLength = None,
      MinValue = None, MaxValue = None\<rparr> = Inr accepted
   \<and> validate_parameter fragment_lib ''q''
     \<lparr>Type = None, Default = Some ''d'', AllowedValues = Some [''x'', ''y''],
      AllowedPattern = Some ''^z.*'', MinLength = None, MaxLength = None,
      MinValue = None, MaxValue = None\<rparr> =
       Inr (rejected (''Value must be one of: '' @ join '', '' [''x'', ''y'']))
   \<and> validate_parameter fragment_lib ''q''
     \<lparr>Type = Some ''Number'', Default = None, AllowedValues = None,
      AllowedPattern = Some ''^z.*'', MinLength = None, MaxLength = None,
      MinValue = None, MaxValue = None\<rparr> =
       Inr (rejected (''Value must match pattern: '' @ ''^z.*''))
   \<and> re_match fragment_lib ''^z.*'' ''zed'' = Some True"
proof -
  let ?pd1 = "\<lparr>Type = None, Default = Some ''d'', AllowedValues = Some [''x'', ''y''],
      AllowedPattern = Some ''^z.*'', MinLength = None, MaxLength = None,
      MinValue = None, MaxValue = (None :: int option)\<rparr>"
  let ?pd3 = "\<lparr>Type = Some ''Number'', Default = None, AllowedValues = None,
      AllowedPattern = Some ''^z.*'', MinLength = None, MaxLength = None,
      MinValue = None, MaxValue = (None :: int option)\<rparr>"
  let ?pd4 = "\<lparr>Type = Some ''String'', Default = None, AllowedValues = Some [''zed''],
      AllowedPattern = Some ''^z.*'', MinLength = None, MaxLength = None,
      MinValue = None, MaxValue = (None :: int option)\<rparr>"
  have m: "py_re_match ''^z.*'' ''q'' = Some False" "py_re_match ''^z.*'' ''zed'' = Some True"
    by (simp_all add: py_re_match_def parse_pattern_def parse_atom_def special_def
        atom_ok_def end_ok_def)
  have h1: "[] = ([] :: string) \<and> Default ?pd1 \<noteq> None" by simp
  have h2: "\<not> (''q'' = [] \<and> Default ?pd1 \<noteq> None)
        \<and> AllowedValues ?pd1 = Some [''x'', ''y''] \<and> [''x'', ''y''] \<noteq> []
        \<and> ''q'' \<notin> set [''x'', ''y'']" by simp
  have h3: "\<not> (''q'' = [] \<and> Default ?pd3 \<noteq> None)
        \<and> (\<forall>ws. AllowedValues ?pd3 = Some ws \<longrightarrow> ws = [] \<or> ''q'' \<in> set ws)
        \<and> AllowedPattern ?pd3 = Some ''^z.*'' \<and> ''^z.*'' \<noteq> []
        \<and> re_match fragment_lib ''^z.*'' ''q'' = Some False"
    by (simp add: fragment_lib_def m)
  have h4: "validate_parameter fragment_lib ''zed'' ?pd4 = Inr accepted \<and> valid accepted"
    by (simp add: validate_parameter_def fragment_lib_def m type_checks_def accepted_def)
  have c1: "validate_parameter fragment_lib [] ?pd1 = Inr accepted"
    by (rule mp[OF conjunct1[OF validate_parameter_rule_order] h1])
  have c2: "validate_parameter fragment_lib ''q'' ?pd1 =
       Inr (rejected (''Value must be one of: '' @ join '', '' [''x'', ''y'']))"
    by (rule mp[OF conjunct1[OF conjunct2[OF validate_parameter_rule_order]] h2])
  have c3: "validate_parameter fragment_lib ''q'' ?pd3 =
       Inr (rejected (''Value must match pattern: '' @ ''^z.*''))"
    by (rule mp[OF conjunct1[OF conjunct2[OF conjunct2[OF validate_parameter_rule_order]]] h3])
  have c4: "(''zed'' = [] \<and> Default ?pd4 \<noteq> None)
        \<or> ((\<forall>ws. AllowedValues ?pd4 = Some ws \<longrightarrow> ws = [] \<or> ''zed'' \<in> set ws)
           \<and> (\<forall>q. AllowedPattern ?pd4 = Some q \<and> q \<noteq> [] \<longrightarrow> re_match fragment_lib q ''zed'' = Some True)
           \<and> valid (type_checks fragment_lib (case Type ?pd4 of None \<Rightarrow> ''String'' | Some t \<Rightarrow> t)
                ''zed'' ?pd4))"
    by (rule mp[OF conjunct1[OF conjunct2[OF conjunct2[OF conjunct2[OF
          validate_parameter_rule_order]]]] h4])
  from c4 have c4': "re_match fragment_lib ''^z.*'' ''zed'' = Some True" by simp
  from c1 c2 c3 c4' show ?thesis by (intro conjI)
qed

text \<open>
  Claim C2 at a failing input. The pattern \<open>prod\<close> does not fully match the value
  \<open>production\<close>, yet \<open>validate_parameter\<close> accepts the value: \<open>re.match\<close> only anchors
  the match at the start of the value.
\<close>

theorem validate_parameter_accepts_prefix_match:
  "validate_parameter (lib\<lparr>re_match := py_re_match\<rparr>) ''production''
     \<lparr>Type = Some ''String'', Default = None, AllowedValues = None,
      AllowedPattern = Some ''prod'', MinLength = None, MaxLength = None,
      MinValue = None, MaxValue = None\<rparr> = Inr \<lparr>reason = ''Valid'', valid = True\<rparr>
   \<and> py_re_fullmatch ''prod'' ''production'' = Some False"
  by (simp add: validate_parameter_def type_checks_def accepted_def
      py_re_match_def py_re_fullmatch_def parse_pattern_def parse_atom_def
      special_def atom_ok_def end_ok_def)

subsection \<open>Comparing configurations\<close>

text \<open>
  Claim C4 at a failing input. The local parameter overrides hold \<open>Mode\<close> with the
  value \<open>None\<close> (the four letters) and the deployed stack has no \<open>Mode\<close>. Under string
  equality with an absent value read as \<open>None\<close> no key differs, and every comparison
  is printed as a match; yet the function returns \<open>True\<close>, because the flag compares
  the values before they are formatted.
\<close>

theorem compare_configurations_none_literal:
  "compare_configurations ''test''
     \<lparr>atlantis = [(''region'', ''us-east-1'')],
      deployments = [(''test'', \<lparr>parameter_overrides = [(''Mode'', ''None'')], tags = []\<rparr>)]\<rparr>
     \<lparr>atlantis = [(''region'', ''us-east-1'')],
      deployments = [(''test'', \<lparr>parameter_overrides = [], tags = []\<rparr>)]\<rparr>
   = (True,
      [\<lparr>name = ''Mode'', local_str = ''None'', stack_str = ''None'', marked_equal = True\<rparr>,
       \<lparr>name = ''region'', local_str = ''us-east-1'', stack_str = ''us-east-1'',
        marked_equal = True\<rparr>])"
  by (simp add: compare_configurations_def deploy_parameters_def copy_key_def all_keys_def
      keys_def dict_of_def print_comparison_def format_value_def)

subsection \<open>Round trip of parameter overrides\<close>

lemma read_quoted:
  "plain s \<Longrightarrow>
   read_tokens (InQuote CHR 0x22) b tok (s @ CHR 0x22 # rest) = read_tokens InWord True (tok @ s) rest"
proof (induction s arbitrary: b tok)
  case Nil then show ?case by simp
next
  case (Cons c s)
  then have "c \<noteq> CHR 0x22" "c \<noteq> CHR 0x5C" "plain s" by (auto simp: plain_def)
  then show ?case using Cons.IH[of True "tok @ [c]"] by simp
qed

lemma read_entry:
  assumes "plain k" "plain v"
  shows "read_tokens Between False [] (entry (k, v) @ rest) = read_tokens InWord True (k @ ''='' @ v) rest"
proof -
  have "read_tokens Between False [] (entry (k, v) @ rest)
      = read_tokens (InQuote CHR 0x22) False [] (k @ CHR 0x22 # (''='' @ [CHR 0x22] @ v @ [CHR 0x22] @ rest))"
    by (simp add: entry_def whitespace_def quote_char_def)
  also have "\<dots> = read_tokens InWord True k (CHR ''='' # CHR 0x22 # v @ CHR 0x22 # rest)"
    using read_quoted[OF assms(1), of False "[]"] by simp
  also have "\<dots> = read_tokens (InQuote CHR 0x22) True (k @ ''='') (v @ CHR 0x22 # rest)"
    by (simp add: whitespace_def quote_char_def)
  also have "\<dots> = read_tokens InWord True ((k @ ''='') @ v) rest"
    by (rule read_quoted[OF assms(2)])
  finally show ?thesis by simp
qed

lemma tokens_of_entries:
  assumes "\<forall>kv \<in> set m. plain (fst kv) \<and> plain (snd kv)" "m \<noteq> []"
  shows "read_tokens Between False [] (join '' '' (map entry m))
       = Inr (map (\<lambda>kv. fst kv @ ''='' @ snd kv) m)"
  using assms
proof (induction m rule: induct_list012)
  case 1 then show ?case by simp
next
  case (2 kv)
  obtain k v where kv: "kv = (k, v)" by (cases kv)
  with 2 have p: "plain k" "plain v" by auto
  show ?case using read_entry[OF p, of "[]"] by (simp add: kv)
next
  case (3 kv kv' m)
  obtain k v where kv: "kv = (k, v)" by (cases kv)
  with 3 have p: "plain k" "plain v" by auto
  have ih: "read_tokens Between False [] (join '' '' (map entry (kv' # m)))
       = Inr (map (\<lambda>kv. fst kv @ ''='' @ snd kv) (kv' # m))"
    using 3 by simp
  have "read_tokens Between False [] (join '' '' (map entry (kv # kv' # m)))
      = read_tokens InWord True (k @ ''='' @ v) ('' '' @ join '' '' (map entry (kv' # m)))"
    using read_entry[OF p] by (simp add: kv)
  also have "\<dots> = emit (k @ ''='' @ v) (read_tokens Between False [] (join '' '' (map entry (kv' # m))))"
    by (simp add: whitespace_def)
  finally show ?case unfolding ih by (simp add: emit_def kv)
qed

lemma split_first_entry:
  "CHR ''='' \<notin> set k \<Longrightarrow> split_first CHR ''='' (k @ ''='' @ v) = (k, v)"
  by (induction k) (auto simp: split_first_def)

lemma add_parts_entries:
  assumes "distinct (keys (acc @ m))"
    and "\<forall>kv \<in> set m. strip (fst kv) = fst kv \<and> strip (snd kv) = snd kv \<and> CHR ''='' \<notin> set (fst kv)"
  shows "add_parts (map (\<lambda>kv. fst kv @ ''='' @ snd kv) m) (acc, lg) = (acc @ m, lg)"
  using assms
proof (induction m arbitrary: acc)
  case Nil then show ?case by simp
next
  case (Cons kv m)
  obtain k v where kv: "kv = (k, v)" by (cases kv)
  with Cons.prems have c: "strip k = k" "strip v = v" "CHR ''='' \<notin> set k" by auto
  have fresh: "k \<notin> fst ` set acc" using Cons.prems(1) by (auto simp: kv keys_def)
  have d: "distinct (keys ((acc @ [(k, v)]) @ m))" using Cons.prems(1) by (simp add: kv)
  have r: "\<forall>kv \<in> set m. strip (fst kv) = fst kv \<and> strip (snd kv) = snd kv \<and> CHR ''='' \<notin> set (fst kv)"
    using Cons.prems(2) by simp
  show ?case
    using Cons.IH[OF d r] split_first_entry[OF c(3), of v] c dict_set_fresh[OF fresh, of v]
    by (simp add: kv)
qed


lemma stringify_as_entries: "stringify_parameter_overrides m = join '' '' (map entry m)"
  by (simp add: stringify_parameter_overrides_def)

lemma join_entries_nonempty: "m \<noteq> [] \<Longrightarrow> join '' '' (map entry m) \<noteq> []"
  by (induction m rule: induct_list012) (simp_all add: entry_def)

text \<open>
  Claim C7, amended. Writing a dict of parameter overrides and parsing the result
  gives the dict back, in the same order and with nothing logged, when no key or
  value holds a double quote or a backslash, none begins or ends with white space
  (\<open>strip\<close> leaves it as it is) and no key holds \<open>=\<close>. Values may hold spaces inside,
  as in the dict A = 1, B = two words.
\<close>

theorem parse_stringify_roundtrip:
  "(distinct (keys m)
      \<and> (\<forall>kv \<in> set m. plain (fst kv) \<and> plain (snd kv)
            \<and> strip (fst kv) = fst kv \<and> strip (snd kv) = snd kv \<and> CHR ''='' \<notin> set (fst kv)) \<longrightarrow>
    parse_parameter_overrides (stringify_parameter_overrides m) = (m, []))
   \<and> parse_parameter_overrides
        (stringify_parameter_overrides [(''A'', ''1''), (''B'', ''two words'')]) =
      ([(''A'', ''1''), (''B'', ''two words'')], [])"
proof (intro conjI impI)
  assume a: "distinct (keys m)
      \<and> (\<forall>kv \<in> set m. plain (fst kv) \<and> plain (snd kv)
            \<and> strip (fst kv) = fst kv \<and> strip (snd kv) = snd kv \<and> CHR ''='' \<notin> set (fst kv))"
  show "parse_parameter_overrides (stringify_parameter_overrides m) = (m, [])"
  proof (cases "m = []")
    case True
    then show ?thesis by (simp add: parse_parameter_overrides_def stringify_parameter_overrides_def)
  next
    case False
    from a have p: "\<forall>kv \<in> set m. plain (fst kv) \<and> plain (snd kv)" by blast
    from a have q: "\<forall>kv \<in> set m. strip (fst kv) = fst kv \<and> strip (snd kv) = snd kv
        \<and> CHR ''='' \<notin> set (fst kv)" by blast
    from a have d: "distinct (keys ([] @ m))" by simp
    have "shlex_split (stringify_parameter_overrides m) = Inr (map (\<lambda>kv. fst kv @ ''='' @ snd kv) m)"
      unfolding shlex_split_def stringify_as_entries by (rule tokens_of_entries[OF p False])
    moreover have "stringify_parameter_overrides m \<noteq> []"
      unfolding stringify_as_entries by (rule join_entries_nonempty[OF False])
    ultimately show ?thesis
      using add_parts_entries[OF d q, of "[]"] by (simp add: parse_parameter_overrides_def)
  qed
next
  show "parse_parameter_overrides
        (stringify_parameter_overrides [(''A'', ''1''), (''B'', ''two words'')]) =
      ([(''A'', ''1''), (''B'', ''two words'')], [])"
    by (simp add: shlex_split_def whitespace_def quote_char_def emit_def
        parse_parameter_overrides_def split_first_def strip_def strip_chars_def py_isspace_def
        stringify_parameter_overrides_def entry_def)
qed

theorem parse_stringify_roundtrip_witness:
  "parse_parameter_overrides
     (stringify_parameter_overrides [(''Region'', ''us-east-1''), (''Note'', ''a = b, c'')]) =
   ([(''Region'', ''us-east-1''), (''Note'', ''a = b, c'')], [])"
proof -
  have h: "distinct (keys [(''Region'', ''us-east-1''), (''Note'', ''a = b, c'')])
      \<and> (\<forall>kv \<in> set [(''Region'', ''us-east-1''), (''Note'', ''a = b, c'')].
            plain (fst kv) \<and> plain (snd kv)
            \<and> strip (fst kv) = fst kv \<and> strip (snd kv) = snd kv \<and> CHR ''='' \<notin> set (fst kv))"
    by (simp add: keys_def plain_def strip_def strip_chars_def py_isspace_def)
  show ?thesis by (rule mp[OF conjunct1[OF parse_stringify_roundtrip] h])
qed

text \<open>
  Without these conditions the round trip fails: a value that begins with a space comes
  back without it, and a value that holds a double quote makes the written string
  untokenizable, so that the parse logs an error and returns the empty dict.
\<close>

theorem parse_stringify_roundtrip_counterexample:
  "parse_parameter_overrides (stringify_parameter_overrides [(''A'', '' 1'')]) =
     ([(''A'', ''1'')], [])
   \<and> parse_parameter_overrides (stringify_parameter_overrides [(''A'', ''1'' @ [CHR 0x22])]) =
     ([], [Error ''Error parsing parameter overrides: No closing quotation''])"
  by (simp add: shlex_split_def whitespace_def quote_char_def emit_def
        parse_parameter_overrides_def split_first_def strip_def strip_chars_def py_isspace_def
        stringify_parameter_overrides_def entry_def error_text_def)

subsection \<open>Merging defaults\<close>

lemma dict_set_same: "map_of d k = Some v \<Longrightarrow> dict_set d k v = d"
  by (induction d) (auto split: if_splits)

lemma alist_eqI:
  "map fst xs = map fst ys \<Longrightarrow> map_of xs = map_of ys \<Longrightarrow> distinct (map fst xs) \<Longrightarrow> xs = ys"
proof (induction xs arbitrary: ys)
  case Nil then show ?case by simp
next
  case (Cons x xs)
  then obtain y ys' where ys: "ys = y # ys'" by (cases ys) auto
  obtain k v where x: "x = (k, v)" by (cases x)
  obtain k' v' where y: "y = (k', v')" by (cases y)
  from Cons.prems(1) have kk: "k' = k" and ks: "map fst xs = map fst ys'" by (simp_all add: ys x y)
  from Cons.prems(2) have "map_of (x # xs) k = map_of ys k" by (rule fun_cong)
  then have vv: "v' = v" by (simp add: ys x y kk)
  have notin: "k \<notin> fst ` set xs" "k \<notin> fst ` set ys'"
    using Cons.prems(3) ks by (simp_all add: x flip: set_map)
  have "map_of xs = map_of ys'"
  proof
    fix a
    show "map_of xs a = map_of ys' a"
    proof (cases "a = k")
      case True
      then show ?thesis using notin by (simp add: map_of_eq_None_iff[THEN iffD2])
    next
      case False
      from Cons.prems(2) have "map_of (x # xs) a = map_of ys a" by (rule fun_cong)
      with False show ?thesis by (simp add: ys x y kk)
    qed
  qed
  then have "xs = ys'" using Cons.IH[OF ks] Cons.prems(3) by simp
  then show ?case by (simp add: ys x y kk vv)
qed

lemma merge_loop_absorbed:
  "(\<forall>kv \<in> set n. map_of d (fst kv) = Some (snd kv)) \<Longrightarrow> merge_loop n d = d"
proof (induction n d rule: merge_loop.induct)
  case (1 d) then show ?case by simp
next
  case (2 key val new_tags d)
  then have "map_of d key = Some val" by simp
  then have "merge_step key val d = d" by (simp add: merge_step_def dict_set_same)
  then show ?case using 2 by simp
qed

lemma merge_tags_self: "distinct (map fst l) \<Longrightarrow> merge_tags l l = l"
  unfolding merge_tags_def
  by (simp add: dict_of_distinct merge_loop_absorbed)

lemma merge_loop_keys_subset:
  "fst ` set n \<subseteq> set (keys d) \<Longrightarrow> keys (merge_loop n d) = keys d"
proof (induction n d rule: merge_loop.induct)
  case (1 d) then show ?case by simp
next
  case (2 key val new_tags d)
  then have k: "keys (merge_step key val d) = keys d" by (simp add: keys_merge_step)
  with 2 show ?case by simp
qed

lemma merge_tags_twice: "merge_tags (merge_tags l n) n = merge_tags l n"
proof -
  let ?r = "merge_loop n (dict_of l)"
  have dr: "distinct (keys ?r)" and kr: "set (keys ?r) = set (keys (dict_of l)) \<union> fst ` set n"
    using merge_loop_keys[where d = "dict_of l" and n = n, OF dict_of_props(1)] by simp_all
  have sub: "fst ` set n \<subseteq> set (keys ?r)" using kr by simp
  have "merge_loop n ?r = ?r"
  proof (rule alist_eqI)
    show "map fst (merge_loop n ?r) = map fst ?r"
      using merge_loop_keys_subset[OF sub] by (simp add: keys_def)
    show "distinct (map fst (merge_loop n ?r))"
      using merge_loop_keys[OF dr, of n] by (simp add: keys_def)
    show "map_of (merge_loop n ?r) = map_of ?r"
    proof
      fix k
      show "map_of (merge_loop n ?r) k = map_of ?r k"
      proof (cases "k \<in> fst ` set n")
        case False
        then show ?thesis by (simp add: merge_loop_lookup[of n ?r])
      next
        case True
        then have "k \<in> set (keys ?r)" using sub by blast
        with True show ?thesis
          by (simp add: merge_loop_lookup[of n ?r] merge_loop_lookup[of n "dict_of l"])
      qed
    qed
  qed
  moreover have "dict_of ?r = ?r" using dr by (simp add: dict_of_distinct keys_def)
  ultimately show ?thesis by (simp add: merge_tags_def)
qed

lemma slot_simps:
  "slot (Some (Dict d)) (Dict u) = Dict (deep_update d u)"
  "slot (Some (Tags l)) (Tags n) = Tags (merge_tags l n)"
  "slot old (Scalar sc) = Scalar sc"
  "(\<forall>d. old \<noteq> Some (Dict d)) \<Longrightarrow> slot old (Dict u) = Dict u"
  "(\<forall>l. old \<noteq> Some (Tags l)) \<Longrightarrow> slot old (Tags n) = Tags n"
  by (auto simp: slot_def split: option.splits cfg.splits)

lemma deep_update_Cons:
  "deep_update orig ((k, v) # rest) = deep_update (dict_set orig k (slot (map_of orig k) v)) rest"
  by (simp add: slot_def split: option.splits cfg.splits)

lemma deep_update_other:
  "k \<notin> fst ` set u \<Longrightarrow> map_of (deep_update orig u) k = map_of orig k"
proof (induction u arbitrary: orig)
  case Nil then show ?case by simp
next
  case (Cons kv u)
  obtain k' v' where kv: "kv = (k', v')" by (cases kv)
  with Cons.prems have ne: "k \<noteq> k'" and notin: "k \<notin> fst ` set u" by auto
  show ?case unfolding kv deep_update_Cons using Cons.IH[OF notin] ne
    by (simp add: map_of_dict_set)
qed

lemma deep_update_hit:
  "distinct (map fst u) \<Longrightarrow> (k, v) \<in> set u \<Longrightarrow>
   map_of (deep_update orig u) k = Some (slot (map_of orig k) v)"
proof (induction u arbitrary: orig)
  case Nil then show ?case by simp
next
  case (Cons kv u)
  obtain k' v' where kv: "kv = (k', v')" by (cases kv)
  have notin: "k' \<notin> fst ` set u" and d: "distinct (map fst u)"
    using Cons.prems(1) by (simp_all add: kv)
  show ?case
  proof (cases "k = k'")
    case True
    have "(k, v) \<notin> set u" using notin True by force
    then have "v = v'" using Cons.prems(2) by (simp add: kv)
    then show ?thesis unfolding kv deep_update_Cons using True notin
      by (simp add: deep_update_other map_of_dict_set)
  next
    case False
    then have mem: "(k, v) \<in> set u" using Cons.prems(2) by (simp add: kv)
    show ?thesis unfolding kv deep_update_Cons using Cons.IH[OF d mem] False
      by (simp add: map_of_dict_set)
  qed
qed

lemma deep_update_absorbed:
  "(\<forall>kv \<in> set u. \<exists>w. map_of s (fst kv) = Some w \<and> slot (Some w) (snd kv) = w) \<Longrightarrow>
   deep_update s u = s"
proof (induction u)
  case Nil then show ?case by simp
next
  case (Cons kv u)
  obtain k v where kv: "kv = (k, v)" by (cases kv)
  from Cons.prems obtain w where w: "map_of s k = Some w" "slot (Some w) v = w"
    by (auto simp: kv)
  then have "dict_set s k (slot (map_of s k) v) = s" by (simp add: dict_set_same)
  then show ?case unfolding kv deep_update_Cons using Cons by simp
qed

lemma wf_items_iff: "wf_items d \<longleftrightarrow> (\<forall>kv \<in> set d. wf_cfg (snd kv))"
  by (induction d) auto

lemma slot_self: "wf_cfg c \<Longrightarrow> slot (Some c) c = c"
proof (induction c)
  case (Scalar s) then show ?case by (simp add: slot_simps)
next
  case (Tags l) then show ?case by (simp add: slot_simps merge_tags_self)
next
  case (Dict d)
  have "deep_update d d = d"
  proof (rule deep_update_absorbed, rule ballI)
    fix kv assume m: "kv \<in> set d"
    then have "map_of d (fst kv) = Some (snd kv)" using Dict.prems
      by (metis map_of_is_SomeI prod.collapse wf_cfg.simps(3))
    moreover have "wf_cfg (snd kv)" using m Dict.prems by (simp add: wf_items_iff)
    with m have "slot (Some (snd kv)) (snd kv) = snd kv"
      using Dict.IH[OF _ snds.intros] by blast
    ultimately show "\<exists>w. map_of d (fst kv) = Some w \<and> slot (Some w) (snd kv) = w" by blast
  qed
  then show ?case by (simp add: slot_simps)
qed

lemma deep_update_twice_items:
  assumes d: "distinct (map fst u)"
    and s: "\<forall>kv \<in> set u. \<forall>old. slot (Some (slot old (snd kv))) (snd kv) = slot old (snd kv)"
  shows "deep_update (deep_update orig u) u = deep_update orig u"
proof (rule deep_update_absorbed, rule ballI)
  fix kv assume m: "kv \<in> set u"
  then have "map_of (deep_update orig u) (fst kv) = Some (slot (map_of orig (fst kv)) (snd kv))"
    using deep_update_hit[OF d, of "fst kv" "snd kv" orig] by simp
  moreover have "slot (Some (slot (map_of orig (fst kv)) (snd kv))) (snd kv)
      = slot (map_of orig (fst kv)) (snd kv)" using s m by blast
  ultimately show "\<exists>w. map_of (deep_update orig u) (fst kv) = Some w \<and> slot (Some w) (snd kv) = w"
    by blast
qed

lemma slot_twice: "wf_cfg v \<Longrightarrow> slot (Some (slot old v)) v = slot old v"
proof (induction v arbitrary: old)
  case (Scalar s) then show ?case by (simp add: slot_simps)
next
  case (Tags n)
  then have dn: "distinct (map fst n)" by simp
  show ?case
  proof (cases "\<exists>l. old = Some (Tags l)")
    case True
    then show ?thesis by (auto simp: slot_simps merge_tags_twice)
  next
    case False
    then have "slot old (Tags n) = Tags n" by (simp add: slot_simps)
    then show ?thesis by (simp add: slot_simps merge_tags_self[OF dn])
  qed
next
  case (Dict u)
  then have du: "distinct (map fst u)" and wu: "\<forall>kv \<in> set u. wf_cfg (snd kv)"
    by (simp_all add: wf_items_iff)
  have ih: "\<forall>kv \<in> set u. \<forall>old. slot (Some (slot old (snd kv))) (snd kv) = slot old (snd kv)"
  proof (intro ballI allI)
    fix kv old' assume m: "kv \<in> set u"
    moreover have "snd kv \<in> Basic_BNFs.snds kv" by (rule snds.intros)
    moreover have "wf_cfg (snd kv)" using m wu by blast
    ultimately show "slot (Some (slot old' (snd kv))) (snd kv) = slot old' (snd kv)"
      by (rule Dict.IH)
  qed
  show ?case
  proof (cases "\<exists>d. old = Some (Dict d)")
    case True
    then show ?thesis by (auto simp: slot_simps deep_update_twice_items[OF du ih])
  next
    case False
    then have "slot old (Dict u) = Dict u" by (simp add: slot_simps)
    then show ?thesis using slot_self[OF Dict.prems] by simp
  qed
qed

lemma deep_update_twice:
  "wf_cfg (Dict u) \<Longrightarrow> deep_update (deep_update orig u) u = deep_update orig u"
  by (rule deep_update_twice_items) (auto simp: wf_items_iff slot_twice)

lemma load_files_append: "load_files (xs @ ys) st = load_files ys (load_files xs st)"
proof (induction xs arbitrary: st)
  case Nil then show ?case by simp
next
  case (Cons x xs)
  obtain p f where x: "x = (p, f)" by (cases x)
  obtain d l where st: "st = (d, l)" by (cases st)
  show ?case by (simp add: x st Cons.IH)
qed

lemma load_files_parsed:
  "fst (load_files [(p, Parsed (Dict b))] st) = deep_update (fst st) b"
  by (cases st) simp

lemma resolve_snoc: "resolve (ls @ [b]) = deep_update (resolve ls) b"
  by (simp add: resolve_def load_files_append load_files_parsed)

text \<open>
  Claim C5, amended. Merging a layer a second time changes nothing when the layer is
  well formed: every object holds each key once (as every Python dict does) and every
  tag list holds each key once. Then resolving A, B gives the same as resolving A, B,
  B, and the same holds after any layers.
\<close>

theorem resolve_idempotent:
  "(wf_cfg (Dict B) \<longrightarrow> resolve [A, B] = resolve [A, B, B])
   \<and> (wf_cfg (Dict B) \<longrightarrow> resolve (layers @ [B]) = resolve (layers @ [B, B]))"
proof (intro conjI impI)
  assume w: "wf_cfg (Dict B)"
  have "resolve ((layers @ [B]) @ [B]) = resolve (layers @ [B])" for layers
    unfolding resolve_snoc[of "layers @ [B]"] resolve_snoc[of layers]
    by (rule deep_update_twice[OF w])
  from this[of layers] this[of "[A]"]
  show "resolve (layers @ [B]) = resolve (layers @ [B, B])" "resolve [A, B] = resolve [A, B, B]"
    by simp_all
qed

theorem resolve_idempotent_witness:
  "resolve [[(''tags'', Tags [(''Owner'', ''alice'')]), (''region'', Scalar (SStr ''us-east-1''))],
            [(''tags'', Tags [(''Owner'', ''bob''), (''Team'', ''infra'')]),
             (''atlantis'', Dict [(''capabilities'', Scalar (SStr ''CAPABILITY_IAM''))])]] =
   resolve [[(''tags'', Tags [(''Owner'', ''alice'')]), (''region'', Scalar (SStr ''us-east-1''))],
            [(''tags'', Tags [(''Owner'', ''bob''), (''Team'', ''infra'')]),
             (''atlantis'', Dict [(''capabilities'', Scalar (SStr ''CAPABILITY_IAM''))])],
            [(''tags'', Tags [(''Owner'', ''bob''), (''Team'', ''infra'')]),
             (''atlantis'', Dict [(''capabilities'', Scalar (SStr ''CAPABILITY_IAM''))])]]"
proof -
  have h: "wf_cfg (Dict [(''tags'', Tags [(''Owner'', ''bob''), (''Team'', ''infra'')]),
             (''atlantis'', Dict [(''capabilities'', Scalar (SStr ''CAPABILITY_IAM''))])])"
    by simp
  show ?thesis by (rule mp[OF conjunct1[OF resolve_idempotent] h])
qed

text \<open>
  For a layer whose tag list repeats a key, the first merge stores the list as it is
  and the second merge passes it through \<open>merge_tags\<close>, which keeps one tag per key.
\<close>

theorem resolve_repeated_tag_key_counterexample:
  "resolve [[], [(''tags'', Tags [(''k'', ''1''), (''k'', ''2'')])]] =
     [(''tags'', Tags [(''k'', ''1''), (''k'', ''2'')])]
   \<and> resolve [[], [(''tags'', Tags [(''k'', ''1''), (''k'', ''2'')])],
                   [(''tags'', Tags [(''k'', ''1''), (''k'', ''2'')])]] =
     [(''tags'', Tags [(''k'', ''2'')])]"
  by (simp add: resolve_def merge_tags_def dict_of_def merge_step_def keys_def
      protected_key_def startswith_def)


subsection \<open>Malformed input\<close>











subsection \<open>Effects on the arguments\<close>




end
